theory Spec2Isabelle
  imports Complex_Main "HOL-Library.AList"
begin

section \<open>Python values\<close>

text \<open>
  A Python \<open>str\<close> is a sequence of Unicode code points; it is modelled as a list of
  natural numbers. \<open>str\<close> turns an ASCII literal into such a list. A finite Python
  \<open>float\<close> is modelled as a real number, with exact arithmetic and rounding; the special
  values \<open>inf\<close>, \<open>-inf\<close> and \<open>nan\<close>, which \<open>float\<close> can return, are values of their own.
\<close>

type_synonym pystr = "nat list"

definition str :: "string \<Rightarrow> pystr" where
  "str s = map of_char s"

datatype error =
    ValueError
  | TypeError
  | KeyError
  | NodeNotFound
  | NetworkXNoPath
  | Unmodelled

datatype pyfloat = Finite real | PosInf | NegInf | NaN

subsection \<open>The builtin \<open>float\<close>\<close>

text \<open>
  \<open>float(s)\<close> on a string first replaces, when the string is not pure ASCII, every
  Unicode space from code point 127 on by a blank and every Unicode decimal digit by its
  ASCII digit; any other code point from 127 on ends the string with a \<open>?\<close>, which no
  literal contains. It then strips the surrounding ASCII whitespace (blank and the code
  points 9 to 13), reads an optional sign and then \<open>inf\<close>, \<open>infinity\<close> or \<open>nan\<close> in any
  case, or a decimal literal: digits with an optional fraction and an optional exponent,
  with single underscores allowed between digits. Anything else raises \<open>ValueError\<close>. A
  literal whose value lies beyond the largest double gives \<open>inf\<close> or \<open>-inf\<close>; any other
  literal is read exactly, without rounding to a double. The two tables are those of
  Unicode 14: the spaces from code point 127 on, and the zero digit of each of the 65
  runs of ten decimal digits.
\<close>

definition unicode_spaces :: "nat list" where
  "unicode_spaces =
     [133, 160, 5760, 8192, 8193, 8194, 8195, 8196, 8197, 8198, 8199, 8200, 8201, 8202,
      8232, 8233, 8239, 8287, 12288]"

definition decimal_zeros :: "nat list" where
  "decimal_zeros =
     [1632, 1776, 1984, 2406, 2534, 2662, 2790, 2918, 3046, 3174, 3302, 3430, 3558, 3664,
      3792, 3872, 4160, 4240, 6112, 6160, 6470, 6608, 6784, 6800, 6992, 7088, 7232, 7248,
      42528, 43216, 43264, 43472, 43504, 43600, 44016, 65296, 66720, 68912, 69734, 69872,
      69942, 70096, 70384, 70736, 70864, 71248, 71360, 71472, 71904, 72016, 72784, 73040,
      73120, 92768, 92864, 93008, 120782, 120792, 120802, 120812, 120822, 123200, 123632,
      125264, 130032]"

definition to_decimal :: "nat \<Rightarrow> nat option" where
  "to_decimal c =
     (case filter (\<lambda>z. z \<le> c \<and> c < z + 10) decimal_zeros of
        [] \<Rightarrow> None
      | z # _ \<Rightarrow> Some (c - z))"

fun to_ascii :: "pystr \<Rightarrow> pystr" where
  "to_ascii [] = []"
| "to_ascii (c # cs) =
     (if c < 127 then c # to_ascii cs
      else if c \<in> set unicode_spaces then 32 # to_ascii cs
      else case to_decimal c of
             None \<Rightarrow> [63]
           | Some d \<Rightarrow> (48 + d) # to_ascii cs)"

definition is_space :: "nat \<Rightarrow> bool" where
  "is_space c = (c = 32 \<or> (9 \<le> c \<and> c \<le> 13))"

definition is_digit :: "nat \<Rightarrow> bool" where
  "is_digit c = (48 \<le> c \<and> c \<le> 57)"

definition strip :: "pystr \<Rightarrow> pystr" where
  "strip s = rev (dropWhile is_space (rev (dropWhile is_space s)))"

definition ascii_lower :: "pystr \<Rightarrow> pystr" where
  "ascii_lower s = map (\<lambda>c. if 65 \<le> c \<and> c \<le> 90 then c + 32 else c) s"

definition split_sign :: "pystr \<Rightarrow> bool \<times> pystr" where
  "split_sign s =
     (case s of
        [] \<Rightarrow> (False, [])
      | c # cs \<Rightarrow> if c = 45 then (True, cs) else if c = 43 then (False, cs) else (False, s))"

fun underscores_ok :: "nat option \<Rightarrow> pystr \<Rightarrow> bool" where
  "underscores_ok prev [] = True"
| "underscores_ok prev (c # cs) =
     (if c = 95
      then (case prev of None \<Rightarrow> False | Some p \<Rightarrow> is_digit p) \<and>
           (case cs of [] \<Rightarrow> False | d # _ \<Rightarrow> is_digit d) \<and>
           underscores_ok (Some c) cs
      else underscores_ok (Some c) cs)"

definition digits_value :: "pystr \<Rightarrow> nat" where
  "digits_value ds = foldl (\<lambda>acc c. 10 * acc + (c - 48)) 0 ds"

definition parse_mantissa :: "pystr \<Rightarrow> (nat \<times> nat) option" where
  "parse_mantissa m =
     (let ip = takeWhile is_digit m; r = dropWhile is_digit m in
      case r of
        [] \<Rightarrow> if ip = [] then None else Some (digits_value ip, 0)
      | c # fp \<Rightarrow>
          if c = 46 \<and> list_all is_digit fp \<and> (ip \<noteq> [] \<or> fp \<noteq> [])
          then Some (digits_value (ip @ fp), length fp) else None)"

definition parse_exponent :: "pystr \<Rightarrow> int option" where
  "parse_exponent e =
     (let (neg, ds) = split_sign e in
      if ds \<noteq> [] \<and> list_all is_digit ds
      then Some (if neg then - int (digits_value ds) else int (digits_value ds))
      else None)"

definition is_exp_mark :: "nat \<Rightarrow> bool" where
  "is_exp_mark c = (c = 101 \<or> c = 69)"

definition scale10 :: "real \<Rightarrow> int \<Rightarrow> real" where
  "scale10 v x = (if 0 \<le> x then v * 10 ^ nat x else v / 10 ^ nat (- x))"

definition to_float :: "real \<Rightarrow> pyfloat" where
  "to_float v =
     (if 2 ^ 1024 - 2 ^ 970 \<le> \<bar>v\<bar> then (if v < 0 then NegInf else PosInf) else Finite v)"

definition float_of_str :: "pystr \<Rightarrow> error + pyfloat" where
  "float_of_str s =
     (let (neg, body) = split_sign (strip (if list_all (\<lambda>c. c < 128) s then s else to_ascii s)) in
      if ascii_lower body = str ''inf'' \<or> ascii_lower body = str ''infinity''
      then Inr (if neg then NegInf else PosInf)
      else if ascii_lower body = str ''nan'' then Inr NaN
      else if \<not> underscores_ok None body then Inl ValueError
      else
        let t = filter (\<lambda>c. c \<noteq> 95) body;
            m = takeWhile (\<lambda>c. \<not> is_exp_mark c) t;
            r = dropWhile (\<lambda>c. \<not> is_exp_mark c) t
        in case parse_mantissa m of
             None \<Rightarrow> Inl ValueError
           | Some (n, k) \<Rightarrow>
               (case (case r of [] \<Rightarrow> Some 0 | _ # e \<Rightarrow> parse_exponent e) of
                  None \<Rightarrow> Inl ValueError
                | Some x \<Rightarrow>
                    Inr (to_float (scale10 ((if neg then - 1 else 1) * (real n / 10 ^ k)) x))))"

text \<open>
  The catalog carries coordinates as decimal strings or as numbers; \<open>float\<close> of a number is
  the number.
\<close>

datatype coord = CoordStr pystr | CoordNum real

fun py_float :: "coord \<Rightarrow> error + pyfloat" where
  "py_float (CoordStr s) = float_of_str s"
| "py_float (CoordNum r) = Inr (Finite r)"

subsection \<open>The builtin \<open>round\<close>\<close>

text \<open>
  \<open>round(x, n)\<close> rounds to \<open>n\<close> decimal places, a tie going to the even neighbour.
\<close>

definition round_half_even :: "real \<Rightarrow> int" where
  "round_half_even x =
     (let f = \<lfloor>x\<rfloor>; d = x - of_int f in
      if d < 1 / 2 then f
      else if 1 / 2 < d then f + 1
      else if even f then f else f + 1)"

definition py_round :: "real \<Rightarrow> nat \<Rightarrow> real" where
  "py_round x n = of_int (round_half_even (x * 10 ^ n)) / 10 ^ n"

subsection \<open>\<open>str.upper\<close>, \<open>str.lower\<close> and the \<open>in\<close> test on strings\<close>








section \<open>GeoDistance: \<open>_haversine_distance\<close>\<close>

text \<open>
  \<open>math.sqrt\<close> and \<open>math.asin\<close> raise \<open>ValueError\<close> outside their domains; the model keeps
  both checks.
\<close>

definition radians :: "real \<Rightarrow> real" where
  "radians x = x * (pi / 180)"

definition math_sqrt :: "real \<Rightarrow> error + real" where
  "math_sqrt x = (if x < 0 then Inl ValueError else Inr (sqrt x))"

definition math_asin :: "real \<Rightarrow> error + real" where
  "math_asin x = (if x < - 1 \<or> 1 < x then Inl ValueError else Inr (arcsin x))"

definition haversine_a :: "real \<Rightarrow> real \<Rightarrow> real \<Rightarrow> real \<Rightarrow> real" where
  "haversine_a lat1 lon1 lat2 lon2 =
     (let dlat = lat2 - lat1; dlon = lon2 - lon1 in
      (sin (dlat / 2))\<^sup>2 + cos lat1 * cos lat2 * (sin (dlon / 2))\<^sup>2)"

definition haversine_distance :: "real \<Rightarrow> real \<Rightarrow> real \<Rightarrow> real \<Rightarrow> error + real" where
  "haversine_distance lat1 lon1 lat2 lon2 =
     (let R = 6371;
          a = haversine_a (radians lat1) (radians lon1) (radians lat2) (radians lon2)
      in case math_sqrt a of
           Inl e \<Rightarrow> Inl e
         | Inr r \<Rightarrow>
             (case math_asin r of
                Inl e \<Rightarrow> Inl e
              | Inr h \<Rightarrow> Inr (R * (2 * h))))"

section \<open>StationCatalog\<close>

text \<open>
  A station record of the catalog is a Python dict with the six keys below. The catalog
  \<open>self.stations\<close> is a dict from line code to the line's station list; a dict keeps its
  keys in insertion order, so it is a list of pairs, iterated from left to right.
\<close>

record station =
  st_name :: pystr
  st_latitude :: coord
  st_longitude :: coord
  st_id :: int
  st_order :: int
  st_line :: pystr

type_synonym catalog = "(pystr \<times> station list) list"

section \<open>TransitGraph: the \<open>networkx\<close> graph and \<open>build_graph\<close>\<close>

text \<open>
  \<open>nx.Graph\<close> keeps a dict of node attribute dicts (\<open>_node\<close>) and a dict of adjacency dicts
  (\<open>_adj\<close>). Both are insertion-ordered: assigning to a present key keeps its position,
  assigning to a new key appends, which is \<open>AList.update\<close>. \<open>build_graph\<close> sets all four
  node attributes at once, so a node's attribute dict is either complete (\<open>Some\<close>) or the
  empty dict that \<open>add_edge\<close> gives to an endpoint it has to create (\<open>None\<close>). An edge
  always carries \<open>weight\<close> and \<open>line\<close>.
\<close>

record node_attrs =
  n_pos :: "pyfloat \<times> pyfloat"
  n_name :: pystr
  n_line :: pystr
  n_order :: int

record edge_attrs =
  e_weight :: real
  e_line :: pystr

record graph =
  g_node :: "(int \<times> node_attrs option) list"
  g_adj :: "(int \<times> (int \<times> edge_attrs) list) list"

definition empty_graph :: graph where
  "empty_graph = \<lparr>g_node = [], g_adj = []\<rparr>"

definition has_node :: "graph \<Rightarrow> int \<Rightarrow> bool" where
  "has_node G n = (map_of (g_node G) n \<noteq> None)"

definition add_node :: "int \<Rightarrow> node_attrs \<Rightarrow> graph \<Rightarrow> graph" where
  "add_node n a G =
     (if \<not> has_node G n
      then G\<lparr>g_adj := AList.update n [] (g_adj G),
             g_node := AList.update n (Some a) (g_node G)\<rparr>
      else G\<lparr>g_node := AList.update n (Some a) (g_node G)\<rparr>)"

definition ensure_node :: "int \<Rightarrow> graph \<Rightarrow> graph" where
  "ensure_node n G =
     (if \<not> has_node G n
      then G\<lparr>g_adj := AList.update n [] (g_adj G),
             g_node := AList.update n None (g_node G)\<rparr>
      else G)"

definition neighbors :: "graph \<Rightarrow> int \<Rightarrow> (int \<times> edge_attrs) list" where
  "neighbors G u = (case map_of (g_adj G) u of None \<Rightarrow> [] | Some es \<Rightarrow> es)"

definition set_adj :: "int \<Rightarrow> int \<Rightarrow> edge_attrs \<Rightarrow> graph \<Rightarrow> graph" where
  "set_adj u v ea G = G\<lparr>g_adj := AList.update u (AList.update v ea (neighbors G u)) (g_adj G)\<rparr>"

definition add_edge :: "int \<Rightarrow> int \<Rightarrow> edge_attrs \<Rightarrow> graph \<Rightarrow> graph" where
  "add_edge u v ea G = set_adj v u ea (set_adj u v ea (ensure_node v (ensure_node u G)))"

definition get_edge_data :: "graph \<Rightarrow> int \<Rightarrow> int \<Rightarrow> edge_attrs option" where
  "get_edge_data G u v = map_of (neighbors G u) v"

text \<open>The first loop of \<open>build_graph\<close>: one \<open>add_node\<close> per station record.\<close>

fun add_line_nodes :: "pystr \<Rightarrow> station list \<Rightarrow> graph \<Rightarrow> error + graph" where
  "add_line_nodes line_name [] G = Inr G"
| "add_line_nodes line_name (station # rest) G =
     (case py_float (st_latitude station) of
        Inl e \<Rightarrow> Inl e
      | Inr lat \<Rightarrow>
          (case py_float (st_longitude station) of
             Inl e \<Rightarrow> Inl e
           | Inr lng \<Rightarrow>
               add_line_nodes line_name rest
                 (add_node (st_id station)
                    \<lparr>n_pos = (lng, lat), n_name = st_name station,
                     n_line = line_name, n_order = st_order station\<rparr> G)))"

fun add_all_nodes :: "catalog \<Rightarrow> graph \<Rightarrow> error + graph" where
  "add_all_nodes [] G = Inr G"
| "add_all_nodes ((line_name, station_list) # rest) G =
     (case add_line_nodes line_name station_list G of
        Inl e \<Rightarrow> Inl e
      | Inr G' \<Rightarrow> add_all_nodes rest G')"

text \<open>
  The second loop: one \<open>add_edge\<close> per consecutive pair of a line, weighted by the
  haversine distance of the two records' coordinates. With a coordinate that is not
  finite, \<open>math.sin\<close> and \<open>math.cos\<close> raise \<open>ValueError\<close> when their argument is infinite:
  a latitude that is infinite, or a difference of longitudes that is (the difference of
  two infinities of the same sign, or of anything and \<open>nan\<close>, is \<open>nan\<close>). Otherwise
  \<open>nan\<close> goes through the formula and becomes the edge weight; a graph with such a weight
  is outside the model, which answers \<open>Unmodelled\<close>.
\<close>

definition is_inf :: "pyfloat \<Rightarrow> bool" where
  "is_inf x = (x = PosInf \<or> x = NegInf)"

definition inf_difference :: "pyfloat \<Rightarrow> pyfloat \<Rightarrow> bool" where
  "inf_difference x y = ((is_inf x \<or> is_inf y) \<and> x \<noteq> NaN \<and> y \<noteq> NaN \<and> x \<noteq> y)"

definition haversine_float ::
  "pyfloat \<Rightarrow> pyfloat \<Rightarrow> pyfloat \<Rightarrow> pyfloat \<Rightarrow> error + real"
where
  "haversine_float lat1 lon1 lat2 lon2 =
     (case (lat1, lon1, lat2, lon2) of
        (Finite p1, Finite l1, Finite p2, Finite l2) \<Rightarrow> haversine_distance p1 l1 p2 l2
      | _ \<Rightarrow>
          if is_inf lat1 \<or> is_inf lat2 \<or> inf_difference lon2 lon1 then Inl ValueError
          else Inl Unmodelled)"

definition station_distance :: "station \<Rightarrow> station \<Rightarrow> error + real" where
  "station_distance station1 station2 =
     (case py_float (st_latitude station1) of
        Inl e \<Rightarrow> Inl e
      | Inr lat1 \<Rightarrow>
     (case py_float (st_longitude station1) of
        Inl e \<Rightarrow> Inl e
      | Inr lon1 \<Rightarrow>
     (case py_float (st_latitude station2) of
        Inl e \<Rightarrow> Inl e
      | Inr lat2 \<Rightarrow>
     (case py_float (st_longitude station2) of
        Inl e \<Rightarrow> Inl e
      | Inr lon2 \<Rightarrow> haversine_float lat1 lon1 lat2 lon2))))"

fun add_line_edges :: "pystr \<Rightarrow> station list \<Rightarrow> graph \<Rightarrow> error + graph" where
  "add_line_edges line_name (station1 # station2 # rest) G =
     (case station_distance station1 station2 of
        Inl e \<Rightarrow> Inl e
      | Inr distance \<Rightarrow>
          add_line_edges line_name (station2 # rest)
            (add_edge (st_id station1) (st_id station2)
               \<lparr>e_weight = distance, e_line = line_name\<rparr> G))"
| "add_line_edges line_name _ G = Inr G"

fun add_all_edges :: "catalog \<Rightarrow> graph \<Rightarrow> error + graph" where
  "add_all_edges [] G = Inr G"
| "add_all_edges ((line_name, station_list) # rest) G =
     (case add_line_edges line_name station_list G of
        Inl e \<Rightarrow> Inl e
      | Inr G' \<Rightarrow> add_all_edges rest G')"

definition build_graph :: "catalog \<Rightarrow> error + graph" where
  "build_graph stations =
     (case add_all_nodes stations empty_graph of
        Inl e \<Rightarrow> Inl e
      | Inr G \<Rightarrow> add_all_edges stations G)"

section \<open>RoutePlanner\<close>

subsection \<open>\<open>nx.shortest_path\<close>\<close>

text \<open>
  Modelled from the spec: \<open>nx.shortest_path(G, source, target, weight='weight')\<close> is a
  function of the networkx library, which is not part of the repository. The spec asks for
  "a weighted shortest-path search (Dijkstra or equivalent correct-for-nonnegative-weights
  algorithm) minimizing the sum of edge weights", with ties resolved "by any consistent
  deterministic rule (e.g., first-discovered in a fixed exploration order)", after it
  "validates existence of both ids" and treats \<open>sourceId == targetId\<close> as a single-station
  path. The model is Dijkstra's algorithm started at \<open>source\<close>: \<open>final\<close> holds the nodes
  whose distance is settled, \<open>seen\<close> the best distance and path found so far for every
  discovered node, in order of discovery. As in networkx, an unknown endpoint raises
  \<open>NodeNotFound\<close>, an unreachable target \<open>NetworkXNoPath\<close>, and a shorter way to a settled
  node (possible with negative weights only) \<open>ValueError\<close>. The search stops as soon as
  the target is settled.
\<close>

type_synonym frontier = "(int \<times> real \<times> int list) list"

text \<open>The unsettled entry of least distance, the earliest discovered among equals.\<close>

fun pick_min :: "int list \<Rightarrow> frontier \<Rightarrow> (int \<times> real \<times> int list) option" where
  "pick_min final [] = None"
| "pick_min final ((v, d, p) # rest) =
     (if v \<in> set final then pick_min final rest
      else case pick_min final rest of
             None \<Rightarrow> Some (v, d, p)
           | Some (v', d', p') \<Rightarrow> if d \<le> d' then Some (v, d, p) else Some (v', d', p'))"

text \<open>
  Relaxing one edge out of a node settled at distance \<open>d\<close> with path \<open>p\<close>, and then all
  of them in the order of the adjacency dict.
\<close>

definition relax_edge ::
  "int list \<Rightarrow> real \<Rightarrow> int list \<Rightarrow> int \<Rightarrow> edge_attrs \<Rightarrow> frontier \<Rightarrow> error + frontier"
where
  "relax_edge final d p w ea seen =
     (let vw_length = d + e_weight ea in
      if w \<in> set final
      then (case map_of seen w of
              None \<Rightarrow> Inr seen
            | Some (dw, pw) \<Rightarrow> if vw_length < dw then Inl ValueError else Inr seen)
      else (case map_of seen w of
              None \<Rightarrow> Inr (AList.update w (vw_length, p @ [w]) seen)
            | Some (dw, pw) \<Rightarrow>
                if vw_length < dw
                then Inr (AList.update w (vw_length, p @ [w]) seen)
                else Inr seen))"

fun relax ::
  "int list \<Rightarrow> real \<Rightarrow> int list \<Rightarrow> (int \<times> edge_attrs) list \<Rightarrow> frontier \<Rightarrow> error + frontier"
where
  "relax final d p [] seen = Inr seen"
| "relax final d p ((w, ea) # es) seen =
     (case relax_edge final d p w ea seen of
        Inl e \<Rightarrow> Inl e
      | Inr seen' \<Rightarrow> relax final d p es seen')"

function dijkstra_loop :: "graph \<Rightarrow> int \<Rightarrow> int list \<Rightarrow> frontier \<Rightarrow> error + int list" where
  "dijkstra_loop G target final seen =
     (case pick_min final seen of
        None \<Rightarrow> Inl NetworkXNoPath
      | Some (v, d, p) \<Rightarrow>
          if v = target then Inr p
          else (case relax (v # final) d p (neighbors G v) seen of
                  Inl e \<Rightarrow> Inl e
                | Inr seen' \<Rightarrow> dijkstra_loop G target (v # final) seen'))"
  by pat_completeness auto

definition shortest_path :: "graph \<Rightarrow> int \<Rightarrow> int \<Rightarrow> error + int list" where
  "shortest_path G source target =
     (if \<not> has_node G source then Inl NodeNotFound
      else if \<not> has_node G target then Inl NodeNotFound
      else if source = target then Inr [source]
      else dijkstra_loop G target [] [(source, 0, [source])])"

subsection \<open>\<open>find_shortest_path\<close>\<close>

record station_info =
  si_id :: int
  si_name :: pystr
  si_latitude :: pyfloat
  si_longitude :: pyfloat
  si_line :: pystr

record route_leg =
  from_id :: int
  from_name :: pystr
  to_id :: int
  to_name :: pystr
  leg_line :: pystr
  distance :: real
  time :: real

record route_result =
  path :: "int list"
  stations :: "station_info list"
  route_details :: "route_leg list"
  total_distance :: real
  total_time :: real
  num_stations :: nat

text \<open>
  \<open>self.G.nodes[n]\<close> raises \<open>KeyError\<close> for an unknown node, and so does reading \<open>'name'\<close>
  from an empty attribute dict.
\<close>

definition node_data :: "graph \<Rightarrow> int \<Rightarrow> error + node_attrs option" where
  "node_data G n = (case map_of (g_node G) n of None \<Rightarrow> Inl KeyError | Some a \<Rightarrow> Inr a)"

definition attr :: "node_attrs option \<Rightarrow> (node_attrs \<Rightarrow> 'a) \<Rightarrow> error + 'a" where
  "attr data key = (case data of None \<Rightarrow> Inl KeyError | Some a \<Rightarrow> Inr (key a))"

definition travel_time_of :: "real \<Rightarrow> real" where
  "travel_time_of d = (d / 40) * 60 + 1"

text \<open>
  The body of the loop over the consecutive pairs of the path: the edge's raw distance, its
  travel time and the leg record. A missing edge makes \<open>edge_data\<close> \<open>None\<close> and the
  subscript a \<open>TypeError\<close>.
\<close>

definition route_step :: "graph \<Rightarrow> int \<Rightarrow> int \<Rightarrow> error + (real \<times> real \<times> route_leg)" where
  "route_step G current_id next_id =
     (case get_edge_data G current_id next_id of
        None \<Rightarrow> Inl TypeError
      | Some edge_data \<Rightarrow>
     (case node_data G current_id of
        Inl e \<Rightarrow> Inl e
      | Inr current_station \<Rightarrow>
     (case node_data G next_id of
        Inl e \<Rightarrow> Inl e
      | Inr next_station \<Rightarrow>
     (case attr current_station n_name of
        Inl e \<Rightarrow> Inl e
      | Inr current_name \<Rightarrow>
     (case attr next_station n_name of
        Inl e \<Rightarrow> Inl e
      | Inr next_name \<Rightarrow>
          (let distance = e_weight edge_data;
               line = e_line edge_data;
               travel_time = travel_time_of distance
           in Inr (distance, travel_time,
                   \<lparr>from_id = current_id, from_name = current_name,
                    to_id = next_id, to_name = next_name, leg_line = line,
                    distance = py_round distance 2,
                    time = py_round travel_time 1\<rparr>)))))))"

text \<open>
  The loop, with its three accumulators \<open>total_distance\<close>, \<open>total_time\<close> and
  \<open>route_details\<close> (\<open>td\<close>, \<open>tt\<close>, \<open>legs\<close>).
\<close>

fun route_loop ::
  "graph \<Rightarrow> int list \<Rightarrow> real \<Rightarrow> real \<Rightarrow> route_leg list \<Rightarrow> error + (real \<times> real \<times> route_leg list)"
where
  "route_loop G (current_id # next_id # rest) td tt legs =
     (case route_step G current_id next_id of
        Inl e \<Rightarrow> Inl e
      | Inr (d, travel_time, leg) \<Rightarrow>
          route_loop G (next_id # rest) (td + d) (tt + travel_time) (legs @ [leg]))"
| "route_loop G _ td tt legs = Inr (td, tt, legs)"

definition station_info_of :: "graph \<Rightarrow> int \<Rightarrow> error + station_info" where
  "station_info_of G station_id =
     (case node_data G station_id of
        Inl e \<Rightarrow> Inl e
      | Inr station_data \<Rightarrow>
          (case station_data of
             None \<Rightarrow> Inl KeyError
           | Some a \<Rightarrow>
               Inr \<lparr>si_id = station_id, si_name = n_name a,
                    si_latitude = snd (n_pos a), si_longitude = fst (n_pos a),
                    si_line = n_line a\<rparr>))"

fun stations_on_route :: "graph \<Rightarrow> int list \<Rightarrow> error + station_info list" where
  "stations_on_route G [] = Inr []"
| "stations_on_route G (station_id # rest) =
     (case station_info_of G station_id of
        Inl e \<Rightarrow> Inl e
      | Inr s \<Rightarrow>
          (case stations_on_route G rest of
             Inl e \<Rightarrow> Inl e
           | Inr ss \<Rightarrow> Inr (s # ss)))"

text \<open>Both \<open>except\<close> clauses return \<open>None\<close>: every exception becomes the plain value.\<close>

definition find_shortest_path :: "graph \<Rightarrow> int \<Rightarrow> int \<Rightarrow> route_result option" where
  "find_shortest_path G source_id target_id =
     (case shortest_path G source_id target_id of
        Inl e \<Rightarrow> None
      | Inr p \<Rightarrow>
          (case route_loop G p 0 0 [] of
             Inl e \<Rightarrow> None
           | Inr (td, tt, legs) \<Rightarrow>
               (case stations_on_route G p of
                  Inl e \<Rightarrow> None
                | Inr ss \<Rightarrow>
                    Some \<lparr>path = p, stations = ss, route_details = legs,
                          total_distance = py_round td 2, total_time = py_round tt 1,
                          num_stations = length p\<rparr>)))"

section \<open>StationIndex\<close>

definition get_station_by_id :: "graph \<Rightarrow> int \<Rightarrow> station_info option" where
  "get_station_by_id G station_id =
     (case station_info_of G station_id of Inl e \<Rightarrow> None | Inr s \<Rightarrow> Some s)"



section \<open>Vocabulary of the route claims\<close>

text \<open>
  A path of the graph is a non-empty sequence of nodes whose consecutive pairs are edges.
  Its weight is the sum of the raw edge weights, its time the sum of the raw travel times
  of its legs.
\<close>

fun edges_ok :: "graph \<Rightarrow> int list \<Rightarrow> bool" where
  "edges_ok G (u # v # rest) = (get_edge_data G u v \<noteq> None \<and> edges_ok G (v # rest))"
| "edges_ok G _ = True"

definition edge_weight :: "graph \<Rightarrow> int \<Rightarrow> int \<Rightarrow> real" where
  "edge_weight G u v = (case get_edge_data G u v of None \<Rightarrow> 0 | Some ea \<Rightarrow> e_weight ea)"

fun path_weight :: "graph \<Rightarrow> int list \<Rightarrow> real" where
  "path_weight G (u # v # rest) = edge_weight G u v + path_weight G (v # rest)"
| "path_weight G _ = 0"

fun path_time :: "graph \<Rightarrow> int list \<Rightarrow> real" where
  "path_time G (u # v # rest) = travel_time_of (edge_weight G u v) + path_time G (v # rest)"
| "path_time G _ = 0"

definition is_path :: "graph \<Rightarrow> int \<Rightarrow> int \<Rightarrow> int list \<Rightarrow> bool" where
  "is_path G s t p =
     (p \<noteq> [] \<and> hd p = s \<and> last p = t \<and> list_all (has_node G) p \<and> edges_ok G p)"

definition connected :: "graph \<Rightarrow> int \<Rightarrow> int \<Rightarrow> bool" where
  "connected G s t = (\<exists>p. is_path G s t p)"

text \<open>
  A small network for the examples, with round edge weights: stations 1, 2, 3 on a chain,
  a direct but longer edge from 1 to 3, and station 4 on its own; and the route from 1 to 3.
\<close>

definition example_attrs :: "string \<Rightarrow> string \<Rightarrow> real \<Rightarrow> real \<Rightarrow> node_attrs option" where
  "example_attrs nm line_name lng lat =
     Some \<lparr>n_pos = (Finite lng, Finite lat), n_name = str nm, n_line = str line_name,
           n_order = 1\<rparr>"

definition example_graph :: graph where
  "example_graph =
     \<lparr>g_node = [(1, example_attrs ''AYDINTEPE'' ''M1'' 29.29 40.85),
                (2, example_attrs ''KARTAL'' ''M2'' 29.18 40.88),
                (3, example_attrs ''AYRILIK CESMESI'' ''M2'' 29.03 41),
                (4, example_attrs ''HALKALI'' ''M3'' 28.76 41.01)],
      g_adj = [(1, [(2, \<lparr>e_weight = 1.004, e_line = str ''M1''\<rparr>),
                    (3, \<lparr>e_weight = 5, e_line = str ''M9''\<rparr>)]),
               (2, [(1, \<lparr>e_weight = 1.004, e_line = str ''M1''\<rparr>),
                    (3, \<lparr>e_weight = 2.034, e_line = str ''M2''\<rparr>)]),
               (3, [(2, \<lparr>e_weight = 2.034, e_line = str ''M2''\<rparr>),
                    (1, \<lparr>e_weight = 5, e_line = str ''M9''\<rparr>)]),
               (4, [])]\<rparr>"

definition example_route :: route_result where
  "example_route =
     \<lparr>path = [1, 2, 3],
      stations =
        [\<lparr>si_id = 1, si_name = str ''AYDINTEPE'', si_latitude = Finite 40.85,
          si_longitude = Finite 29.29,
          si_line = str ''M1''\<rparr>,
         \<lparr>si_id = 2, si_name = str ''KARTAL'', si_latitude = Finite 40.88,
          si_longitude = Finite 29.18,
          si_line = str ''M2''\<rparr>,
         \<lparr>si_id = 3, si_name = str ''AYRILIK CESMESI'', si_latitude = Finite 41,
          si_longitude = Finite 29.03,
          si_line = str ''M2''\<rparr>],
      route_details =
        [\<lparr>from_id = 1, from_name = str ''AYDINTEPE'', to_id = 2, to_name = str ''KARTAL'',
          leg_line = str ''M1'', distance = 1, time = 2.5\<rparr>,
         \<lparr>from_id = 2, from_name = str ''KARTAL'', to_id = 3, to_name = str ''AYRILIK CESMESI'',
          leg_line = str ''M2'', distance = 2.03, time = 4.1\<rparr>],
      total_distance = 3.04, total_time = 6.6, num_stations = 3\<rparr>"

section \<open>Example catalogs\<close>



definition out_of_range_catalog :: catalog where
  "out_of_range_catalog =
     [(str ''M1'',
       [\<lparr>st_name = str ''NOWHERE'', st_latitude = CoordStr (str ''95.0''),
         st_longitude = CoordStr (str ''200''), st_id = 1, st_order = 1,
         st_line = str ''M1''\<rparr>])]"

definition out_of_range_graph :: graph where
  "out_of_range_graph =
     \<lparr>g_node = [(1, Some \<lparr>n_pos = (Finite 200, Finite 95), n_name = str ''NOWHERE'',
                          n_line = str ''M1'', n_order = 1\<rparr>)],
      g_adj = [(1, [])]\<rparr>"

definition missing_coordinate_catalog :: catalog where
  "missing_coordinate_catalog =
     [(str ''M1'',
       [\<lparr>st_name = str ''A'', st_latitude = CoordStr (str ''41.0''),
         st_longitude = CoordStr (str ''29.0''), st_id = 1, st_order = 1,
         st_line = str ''M1''\<rparr>,
        \<lparr>st_name = str ''B'', st_latitude = CoordStr [],
         st_longitude = CoordStr (str ''29.1''), st_id = 2, st_order = 2,
         st_line = str ''M1''\<rparr>])]"

text \<open>The coordinates of a catalog, for the statement that each of them is a number.\<close>

definition catalog_coords :: "catalog \<Rightarrow> coord list" where
  "catalog_coords cat =
     concat (map (\<lambda>(line_name, station_list).
       concat (map (\<lambda>station. [st_latitude station, st_longitude station]) station_list))
       cat)"

section \<open>Vocabulary of the construction claims\<close>

text \<open>
  The records of the catalog in the order in which \<open>build_graph\<close> processes them, each with
  the code of the line group it stands in; the node attributes that \<open>add_node\<close> receives
  for a record; and the value of the haversine formula.
\<close>

definition catalog_records :: "catalog \<Rightarrow> (pystr \<times> station) list" where
  "catalog_records cat =
     concat (map (\<lambda>(line_name, station_list). map (Pair line_name) station_list) cat)"

definition records_of :: "catalog \<Rightarrow> int \<Rightarrow> (pystr \<times> station) list" where
  "records_of cat x = filter (\<lambda>(line_name, station). st_id station = x) (catalog_records cat)"

definition station_attrs :: "pystr \<Rightarrow> station \<Rightarrow> node_attrs" where
  "station_attrs line_name station =
     \<lparr>n_pos = (projr (py_float (st_longitude station)), projr (py_float (st_latitude station))),
      n_name = st_name station, n_line = line_name, n_order = st_order station\<rparr>"

definition haversine_km :: "real \<Rightarrow> real \<Rightarrow> real \<Rightarrow> real \<Rightarrow> real" where
  "haversine_km lat1 lon1 lat2 lon2 =
     6371 * (2 * arcsin (sqrt (haversine_a (radians lat1) (radians lon1)
                                            (radians lat2) (radians lon2))))"

text \<open>
  The invariant of a built graph: every node has its attributes, every adjacency dict has
  distinct keys, and every edge leads to a node and has a weight that is not negative.
\<close>

definition wf_graph :: "graph \<Rightarrow> bool" where
  "wf_graph G =
     ((\<forall>n. map_of (g_node G) n \<noteq> Some None) \<and>
      (\<forall>u. distinct (map fst (neighbors G u))) \<and>
      (\<forall>u w ea. (w, ea) \<in> set (neighbors G u) \<longrightarrow> has_node G w \<and> 0 \<le> e_weight ea))"

text \<open>
  The scenario of two lines that share a station: line A runs from station 1 to station 2,
  line B from station 2 to station 3, and line C has the single station 4.
\<close>

definition transfer_station ::
  "string \<Rightarrow> string \<Rightarrow> string \<Rightarrow> string \<Rightarrow> int \<Rightarrow> int \<Rightarrow> station"
where
  "transfer_station line_name nm lat lon i k =
     \<lparr>st_name = str nm, st_latitude = CoordStr (str lat), st_longitude = CoordStr (str lon),
      st_id = i, st_order = k, st_line = str line_name\<rparr>"

definition transfer_catalog :: catalog where
  "transfer_catalog =
     [(str ''A'', [transfer_station ''A'' ''ALFA'' ''0'' ''0'' 1 1,
                   transfer_station ''A'' ''BETA'' ''0'' ''1'' 2 2]),
      (str ''B'', [transfer_station ''B'' ''BETA (B)'' ''0'' ''1'' 2 1,
                   transfer_station ''B'' ''GAMMA'' ''0'' ''2'' 3 2]),
      (str ''C'', [transfer_station ''C'' ''DELTA'' ''1'' ''5'' 4 1])]"

definition transfer_graph :: graph where
  "transfer_graph =
     \<lparr>g_node =
        [(1, Some \<lparr>n_pos = (Finite 0, Finite 0), n_name = str ''ALFA'', n_line = str ''A'', n_order = 1\<rparr>),
         (2, Some \<lparr>n_pos = (Finite 1, Finite 0), n_name = str ''BETA (B)'', n_line = str ''B'', n_order = 1\<rparr>),
         (3, Some \<lparr>n_pos = (Finite 2, Finite 0), n_name = str ''GAMMA'', n_line = str ''B'', n_order = 2\<rparr>),
         (4, Some \<lparr>n_pos = (Finite 5, Finite 1), n_name = str ''DELTA'', n_line = str ''C'', n_order = 1\<rparr>)],
      g_adj =
        [(1, [(2, \<lparr>e_weight = haversine_km 0 0 0 1, e_line = str ''A''\<rparr>)]),
         (2, [(1, \<lparr>e_weight = haversine_km 0 0 0 1, e_line = str ''A''\<rparr>),
              (3, \<lparr>e_weight = haversine_km 0 1 0 2, e_line = str ''B''\<rparr>)]),
         (3, [(2, \<lparr>e_weight = haversine_km 0 1 0 2, e_line = str ''B''\<rparr>)]),
         (4, [])]\<rparr>"

section \<open>Invariants of the shortest-path search\<close>

text \<open>
  Every entry of \<open>seen\<close> is a path of the graph from the source to the entry's node, of the
  recorded weight. \<open>improves\<close> relates the entries before and after relaxing edges: no
  distance grows, and the entries of settled nodes stay as they are. \<open>settled_inv\<close> says that
  the source is discovered at distance 0 or less, and that a settled node's distance is
  least among all paths to it and has been offered to each of its neighbours.
\<close>

definition frontier_sound :: "graph \<Rightarrow> int \<Rightarrow> frontier \<Rightarrow> bool" where
  "frontier_sound G s seen =
     (distinct (map fst seen) \<and>
      (\<forall>v d p. map_of seen v = Some (d, p) \<longrightarrow> is_path G s v p \<and> path_weight G p = d))"

definition improves :: "int list \<Rightarrow> frontier \<Rightarrow> frontier \<Rightarrow> bool" where
  "improves final seen seen' =
     ((\<forall>x dx px. map_of seen x = Some (dx, px) \<longrightarrow>
         (\<exists>dx' px'. map_of seen' x = Some (dx', px') \<and> dx' \<le> dx)) \<and>
      (\<forall>x \<in> set final. map_of seen' x = map_of seen x))"

definition settled_optimal :: "graph \<Rightarrow> int \<Rightarrow> int list \<Rightarrow> frontier \<Rightarrow> bool" where
  "settled_optimal G s final seen =
     (\<forall>u \<in> set final. \<exists>du pu. map_of seen u = Some (du, pu) \<and>
        (\<forall>q. is_path G s u q \<longrightarrow> du \<le> path_weight G q))"

definition settled_relaxed :: "graph \<Rightarrow> int list \<Rightarrow> frontier \<Rightarrow> bool" where
  "settled_relaxed G final seen =
     (\<forall>u \<in> set final. \<forall>du pu w ea.
        map_of seen u = Some (du, pu) \<longrightarrow> (w, ea) \<in> set (neighbors G u) \<longrightarrow>
        (\<exists>dw pw. map_of seen w = Some (dw, pw) \<and> dw \<le> du + e_weight ea))"

definition settled_inv :: "graph \<Rightarrow> int \<Rightarrow> int list \<Rightarrow> frontier \<Rightarrow> bool" where
  "settled_inv G s final seen =
     (frontier_sound G s seen \<and>
      (\<exists>ds ps. map_of seen s = Some (ds, ps) \<and> ds \<le> 0) \<and>
      settled_optimal G s final seen \<and> settled_relaxed G final seen)"

section \<open>Properties of GeoDistance\<close>

lemma hav_identity:
  fixes x y :: real
  shows "(sin ((y - x) / 2))\<^sup>2 + cos x * cos y = (cos ((x + y) / 2))\<^sup>2"
proof -
  have e1: "2 * ((y - x) / 2) = y - x" and e2: "2 * ((x + y) / 2) = x + y"
    by argo+
  have a: "(sin ((y - x) / 2))\<^sup>2 = (1 - cos (y - x)) / 2"
    using cos_double_sin[of "(y - x) / 2", unfolded e1] by argo
  have b: "(cos ((x + y) / 2))\<^sup>2 = (1 + cos (x + y)) / 2"
    using cos_double_cos[of "(x + y) / 2", unfolded e2] by argo
  show ?thesis unfolding a b by (simp add: cos_diff cos_add field_simps)
qed

lemma haversine_a_bounds: "0 \<le> haversine_a p1 l1 p2 l2 \<and> haversine_a p1 l1 p2 l2 \<le> 1"
proof -
  define s where "s = (sin ((l2 - l1) / 2))\<^sup>2"
  define A where "A = (sin ((p2 - p1) / 2))\<^sup>2"
  define B where "B = (cos ((p1 + p2) / 2))\<^sup>2"
  have s: "0 \<le> s" "s \<le> 1" unfolding s_def by (simp_all add: abs_square_le_1)
  have A: "0 \<le> A" "A \<le> 1" unfolding A_def by (simp_all add: abs_square_le_1)
  have B: "0 \<le> B" "B \<le> 1" unfolding B_def by (simp_all add: abs_square_le_1)
  have cc: "cos p1 * cos p2 = B - A" unfolding A_def B_def using hav_identity[of p2 p1] by simp
  have eq: "haversine_a p1 l1 p2 l2 = (1 - s) * A + s * B"
    unfolding haversine_a_def Let_def s_def[symmetric] A_def[symmetric] cc by (simp add: algebra_simps)
  have "0 \<le> (1 - s) * A + s * B" using s A B by simp
  moreover have "(1 - s) * A + s * B \<le> (1 - s) * 1 + s * 1"
    using s A B by (intro add_mono mult_left_mono) simp_all
  ultimately show ?thesis unfolding eq by simp
qed


lemma haversine_distance_total:
  "haversine_distance lat1 lon1 lat2 lon2 =
     Inr (6371 * (2 * arcsin (sqrt (haversine_a (radians lat1) (radians lon1) (radians lat2) (radians lon2)))))"
proof -
  let ?a = "haversine_a (radians lat1) (radians lon1) (radians lat2) (radians lon2)"
  have b: "0 \<le> ?a" "?a \<le> 1" using haversine_a_bounds by blast+
  have "0 \<le> sqrt ?a" "sqrt ?a \<le> 1" using b by simp_all
  then have "\<not> sqrt ?a < - 1" "\<not> 1 < sqrt ?a" "\<not> ?a < 0" using b by linarith+
  then show ?thesis
    by (simp add: haversine_distance_def math_sqrt_def math_asin_def Let_def)
qed


section \<open>Termination of the shortest-path search\<close>

lemma pick_min_SomeD:
  "pick_min final seen = Some (v, d, p) \<Longrightarrow> (v, d, p) \<in> set seen \<and> v \<notin> set final"
  by (induction final seen rule: pick_min.induct) (auto split: if_splits option.splits)

lemma keys_update: "fst ` set (AList.update k x al) = insert k (fst ` set al)"
  using dom_update[of k x al] by (simp add: dom_map_of_conv_image_fst)

lemma relax_edge_cases:
  "relax_edge final d p w ea seen = Inr seen' \<Longrightarrow>
     seen' = seen \<or> seen' = AList.update w (d + e_weight ea, p @ [w]) seen"
  by (auto simp: relax_edge_def Let_def split: if_splits option.splits)

lemma relax_edge_keys:
  assumes "relax_edge final d p w ea seen = Inr seen'"
  shows "fst ` set seen' \<subseteq> insert w (fst ` set seen)"
  using relax_edge_cases[OF assms] keys_update[of w "(d + e_weight ea, p @ [w])" seen]
  by blast

lemma relax_keys:
  "relax final d p es seen = Inr seen' \<Longrightarrow> fst ` set seen' \<subseteq> fst ` set seen \<union> fst ` set es"
proof (induction es arbitrary: seen)
  case Nil
  then show ?case by simp
next
  case (Cons e es)
  obtain w ea where e: "e = (w, ea)" by (cases e)
  from Cons.prems e obtain s1 where s1: "relax_edge final d p w ea seen = Inr s1"
    and r: "relax final d p es s1 = Inr seen'"
    by (auto split: sum.splits)
  from Cons.IH[OF r] relax_edge_keys[OF s1] show ?case using e by auto
qed

lemma neighbors_subset:
  "fst ` set (neighbors G v) \<subseteq> (\<Union>es \<in> snd ` set (g_adj G). fst ` set es)"
proof (cases "map_of (g_adj G) v")
  case None
  then show ?thesis by (simp add: neighbors_def)
next
  case (Some es)
  then have "(v, es) \<in> set (g_adj G)" by (rule map_of_SomeD)
  then have "es \<in> snd ` set (g_adj G)" by force
  then show ?thesis using Some by (auto simp: neighbors_def)
qed

termination dijkstra_loop
proof (relation "measure (\<lambda>(G, target, final, seen).
          card ((fst ` set seen \<union> (\<Union>es \<in> snd ` set (g_adj G). fst ` set es)) - set final))")
  show "wf (measure (\<lambda>(G, target, final, seen).
          card ((fst ` set seen \<union> (\<Union>es \<in> snd ` set (g_adj G). fst ` set es)) - set final)))"
    by simp
next
  fix G :: graph and target :: int and final :: "int list" and seen :: frontier
    and x2 :: "int \<times> real \<times> int list" and v y d p seen'
  assume pm: "pick_min final seen = Some x2" "(v, y) = x2" "(d, p) = y"
    and "v \<noteq> target"
    and rl: "relax (v # final) d p (neighbors G v) seen = Inr seen'"
  let ?T = "\<Union>es \<in> snd ` set (g_adj G). fst ` set es"
  from pm have "pick_min final seen = Some (v, d, p)" by simp
  from pick_min_SomeD[OF this] have v: "v \<in> fst ` set seen" "v \<notin> set final" by force+
  from relax_keys[OF rl] neighbors_subset[of G v]
  have sub: "fst ` set seen' \<subseteq> fst ` set seen \<union> ?T" by blast
  have fin: "finite ((fst ` set seen \<union> ?T) - set final)" by simp
  have "(fst ` set seen' \<union> ?T) - set (v # final) \<subset> (fst ` set seen \<union> ?T) - set final"
    using sub v by auto
  from psubset_card_mono[OF fin this]
  show "((G, target, v # final, seen'), (G, target, final, seen)) \<in> measure (\<lambda>(G, target, final, seen).
          card ((fst ` set seen \<union> (\<Union>es \<in> snd ` set (g_adj G). fst ` set es)) - set final))"
    by simp
qed

declare dijkstra_loop.simps [simp del]

section \<open>Properties of the route assembly\<close>

lemma route_step_InrD:
  assumes "route_step G u v = Inr (d, tm, leg)"
  shows "\<exists>ea. get_edge_data G u v = Some ea \<and> d = e_weight ea \<and> tm = travel_time_of (e_weight ea)
           \<and> from_id leg = u \<and> to_id leg = v \<and> leg_line leg = e_line ea
           \<and> distance leg = py_round (e_weight ea) 2
           \<and> time leg = py_round (travel_time_of (e_weight ea)) 1"
  using assms by (auto simp: route_step_def Let_def split: option.splits sum.splits)

lemma route_loop_length:
  "route_loop G p td tt legs = Inr (td', tt', legs') \<Longrightarrow>
     length legs' = length legs + (length p - 1)"
  by (induction G p td tt legs rule: route_loop.induct)
     (auto split: sum.splits)

lemma route_loop_prefix:
  "route_loop G p td tt legs = Inr (td', tt', legs') \<Longrightarrow> j < length legs \<Longrightarrow>
     legs' ! j = legs ! j"
  by (induction G p td tt legs rule: route_loop.induct)
     (auto simp: nth_append split: sum.splits)

lemma route_loop_totals:
  "route_loop G p td tt legs = Inr (td', tt', legs') \<Longrightarrow>
     edges_ok G p \<and> td' = td + path_weight G p \<and> tt' = tt + path_time G p"
proof (induction G p td tt legs rule: route_loop.induct)
  case (1 G current_id next_id rest td tt legs)
  from "1.prems" obtain d tm leg where
    st: "route_step G current_id next_id = Inr (d, tm, leg)"
    and rec: "route_loop G (next_id # rest) (td + d) (tt + tm) (legs @ [leg]) = Inr (td', tt', legs')"
    by (auto split: sum.splits)
  from route_step_InrD[OF st] obtain ea where
    ea: "get_edge_data G current_id next_id = Some ea" "d = e_weight ea" "tm = travel_time_of (e_weight ea)"
    by blast
  from "1.IH"[OF st refl refl rec] ea show ?case by (simp add: edge_weight_def)
qed simp_all

lemma route_loop_leg:
  "route_loop G p td tt legs = Inr (td', tt', legs') \<Longrightarrow> Suc i < length p \<Longrightarrow>
     (\<exists>ea. get_edge_data G (p ! i) (p ! Suc i) = Some ea \<and>
           from_id (legs' ! (length legs + i)) = p ! i \<and>
           to_id (legs' ! (length legs + i)) = p ! Suc i \<and>
           leg_line (legs' ! (length legs + i)) = e_line ea \<and>
           distance (legs' ! (length legs + i)) = py_round (e_weight ea) 2 \<and>
           time (legs' ! (length legs + i)) = py_round (travel_time_of (e_weight ea)) 1)"
proof (induction G p td tt legs arbitrary: i rule: route_loop.induct)
  case (1 G current_id next_id rest td tt legs)
  from "1.prems"(1) obtain d tm leg where
    st: "route_step G current_id next_id = Inr (d, tm, leg)"
    and rec: "route_loop G (next_id # rest) (td + d) (tt + tm) (legs @ [leg]) = Inr (td', tt', legs')"
    by (auto split: sum.splits)
  show ?case
  proof (cases i)
    case 0
    have "legs' ! length legs = (legs @ [leg]) ! length legs"
      using route_loop_prefix[OF rec, of "length legs"] by simp
    then have "legs' ! length legs = leg" by simp
    with route_step_InrD[OF st] 0 show ?thesis by auto
  next
    case (Suc k)
    then have k: "Suc k < length (next_id # rest)" using "1.prems"(2) by simp
    from "1.IH"[OF st refl refl rec k]
    show ?thesis using Suc by simp
  qed
qed simp_all

section \<open>Properties of \<open>find_shortest_path\<close> on any graph\<close>

lemma set_update_subset: "set (AList.update k v al) \<subseteq> insert (k, v) (set al)"
  by (induction al) auto

lemma relax_edge_ends:
  assumes "relax_edge final d p w ea seen = Inr seen'"
    and "p \<noteq> []" and "hd p = s"
    and "\<forall>(v, dv, q) \<in> set seen. q \<noteq> [] \<and> hd q = s \<and> last q = v"
  shows "\<forall>(v, dv, q) \<in> set seen'. q \<noteq> [] \<and> hd q = s \<and> last q = v"
proof -
  from relax_edge_cases[OF assms(1)]
  have "set seen' \<subseteq> insert (w, d + e_weight ea, p @ [w]) (set seen)"
    using set_update_subset[of w "(d + e_weight ea, p @ [w])" seen] by auto
  moreover have "(p @ [w]) \<noteq> [] \<and> hd (p @ [w]) = s \<and> last (p @ [w]) = w"
    using assms(2,3) by simp
  ultimately show ?thesis using assms(4) by auto
qed

lemma relax_ends:
  assumes "relax final d p es seen = Inr seen'"
    and "p \<noteq> []" and "hd p = s"
    and "\<forall>(v, dv, q) \<in> set seen. q \<noteq> [] \<and> hd q = s \<and> last q = v"
  shows "\<forall>(v, dv, q) \<in> set seen'. q \<noteq> [] \<and> hd q = s \<and> last q = v"
  using assms
proof (induction es arbitrary: seen)
  case Nil
  then show ?case by simp
next
  case (Cons e es)
  obtain w ea where e: "e = (w, ea)" by (cases e)
  from Cons.prems(1) e obtain s1 where s1: "relax_edge final d p w ea seen = Inr s1"
    and r: "relax final d p es s1 = Inr seen'"
    by (auto split: sum.splits)
  from relax_edge_ends[OF s1 Cons.prems(2,3,4)]
  have "\<forall>(v, dv, q) \<in> set s1. q \<noteq> [] \<and> hd q = s \<and> last q = v" .
  from Cons.IH[OF r Cons.prems(2,3) this] show ?case .
qed

lemma dijkstra_loop_ends:
  assumes "dijkstra_loop G t final seen = Inr p"
    and "\<forall>(v, dv, q) \<in> set seen. q \<noteq> [] \<and> hd q = s \<and> last q = v"
  shows "p \<noteq> [] \<and> hd p = s \<and> last p = t"
  using assms
proof (induction G t final seen rule: dijkstra_loop.induct)
  case (1 G t final seen)
  from "1.prems"(1) obtain v d q where pm: "pick_min final seen = Some (v, d, q)"
    by (subst (asm) dijkstra_loop.simps) (auto split: option.splits)
  from pick_min_SomeD[OF pm] "1.prems"(2) have q: "q \<noteq> []" "hd q = s" "last q = v" by auto
  show ?case
  proof (cases "v = t")
    case True
    then have "p = q" using "1.prems"(1) pm by (subst (asm) dijkstra_loop.simps) simp
    then show ?thesis using q True by simp
  next
    case False
    from "1.prems"(1) pm False obtain seen' where
      rl: "relax (v # final) d q (neighbors G v) seen = Inr seen'"
      and rec: "dijkstra_loop G t (v # final) seen' = Inr p"
      by (subst (asm) dijkstra_loop.simps) (auto split: sum.splits)
    from relax_ends[OF rl q(1,2) "1.prems"(2)]
    have "\<forall>(v, dv, q) \<in> set seen'. q \<noteq> [] \<and> hd q = s \<and> last q = v" .
    from "1.IH"[OF pm refl refl False rl rec this] show ?thesis .
  qed
qed

lemma shortest_path_ends:
  assumes "shortest_path G s t = Inr p"
  shows "p \<noteq> [] \<and> hd p = s \<and> last p = t"
proof (cases "s = t")
  case True
  then show ?thesis using assms by (auto simp: shortest_path_def split: if_splits)
next
  case False
  then have "dijkstra_loop G t [] [(s, 0, [s])] = Inr p"
    using assms by (auto simp: shortest_path_def split: if_splits)
  from dijkstra_loop_ends[OF this, of s] show ?thesis by simp
qed

lemma stations_on_route_ids:
  "stations_on_route G p = Inr ss \<Longrightarrow> map si_id ss = p"
  by (induction p arbitrary: ss)
     (auto simp: station_info_of_def split: sum.splits option.splits)

lemma find_shortest_path_SomeD:
  assumes "find_shortest_path G s t = Some r"
  shows "\<exists>td tt. shortest_path G s t = Inr (path r)
           \<and> route_loop G (path r) 0 0 [] = Inr (td, tt, route_details r)
           \<and> stations_on_route G (path r) = Inr (stations r)
           \<and> total_distance r = py_round td 2 \<and> total_time r = py_round tt 1
           \<and> num_stations r = length (path r)"
  using assms by (auto simp: find_shortest_path_def split: sum.splits)

lemma find_example: "find_shortest_path example_graph 1 3 = Some example_route"
  by code_simp

text \<open>
  C10. Every successful result of \<open>find_shortest_path\<close> is internally consistent: its path
  begins with \<open>source_id\<close> and ends with \<open>target_id\<close>, \<open>num_stations\<close> is the length of
  the path, \<open>stations\<close> has one entry per path element in path order, and \<open>route_details\<close>
  has one leg per consecutive pair, from the first element of the pair to the second.
\<close>

theorem route_result_consistent:
  assumes "find_shortest_path G source_id target_id = Some r"
  shows "path r \<noteq> [] \<and> hd (path r) = source_id \<and> last (path r) = target_id
         \<and> num_stations r = length (path r)
         \<and> map si_id (stations r) = path r
         \<and> length (route_details r) = length (path r) - 1
         \<and> (\<forall>i. Suc i < length (path r) \<longrightarrow>
               from_id (route_details r ! i) = path r ! i
               \<and> to_id (route_details r ! i) = path r ! Suc i)"
proof -
  from find_shortest_path_SomeD[OF assms] obtain td tt where
    sp: "shortest_path G source_id target_id = Inr (path r)"
    and rl: "route_loop G (path r) 0 0 [] = Inr (td, tt, route_details r)"
    and ss: "stations_on_route G (path r) = Inr (stations r)"
    and n: "num_stations r = length (path r)"
    by blast
  have legs: "\<forall>i. Suc i < length (path r) \<longrightarrow>
               from_id (route_details r ! i) = path r ! i
               \<and> to_id (route_details r ! i) = path r ! Suc i"
    using route_loop_leg[OF rl] by force
  show ?thesis
    using shortest_path_ends[OF sp] n stations_on_route_ids[OF ss]
      route_loop_length[OF rl] legs by simp
qed

theorem route_result_consistent_witness:
  "find_shortest_path example_graph 1 3 = Some example_route
   \<and> hd (path example_route) = 1 \<and> last (path example_route) = 3
   \<and> num_stations example_route = length (path example_route)
   \<and> map si_id (stations example_route) = path example_route
   \<and> length (route_details example_route) = length (path example_route) - 1
   \<and> from_id (route_details example_route ! 1) = path example_route ! 1
   \<and> to_id (route_details example_route ! 1) = path example_route ! Suc 1"
  using route_result_consistent[OF find_example] find_example
  by (simp add: example_route_def)

text \<open>
  C2, as stated, fails: the claim defines the leg's \<open>distance\<close> as the edge weight rounded
  to 2 places and its \<open>time\<close> by the formula on that distance. On the example the second
  leg, of weight 2.034, is reported with distance 2.03 and time 4.1, while
  \<open>(2.03 / 40) * 60 + 1\<close> rounded to 1 place is 4.
\<close>

theorem leg_time_not_from_reported_distance:
  "find_shortest_path example_graph 1 3 = Some example_route
   \<and> distance (route_details example_route ! 1) = 2.03
   \<and> time (route_details example_route ! 1) = 4.1
   \<and> py_round ((distance (route_details example_route ! 1) / 40) * 60 + 1) 1 = 4
   \<and> time (route_details example_route ! 1)
       \<noteq> py_round ((distance (route_details example_route ! 1) / 40) * 60 + 1) 1"
  using find_example by (simp add: example_route_def py_round_def round_half_even_def)

text \<open>
  C2, amended. For every successful result and every consecutive pair of its path, the
  leg's \<open>distance\<close> is the edge weight rounded to 2 places and its \<open>time\<close> is
  \<open>(w / 40) * 60 + 1\<close> rounded to 1 place, where \<open>w\<close> is the edge weight before rounding
  (the source's local variable \<open>distance\<close>), not the reported distance; the same formula,
  with its constant of 1 minute, is used for every leg, and the line of the edge is only
  reported.
\<close>

theorem leg_distance_and_time:
  assumes "find_shortest_path G source_id target_id = Some r"
    and "Suc i < length (path r)"
  shows "\<exists>ea. get_edge_data G (path r ! i) (path r ! Suc i) = Some ea
           \<and> leg_line (route_details r ! i) = e_line ea
           \<and> distance (route_details r ! i) = py_round (e_weight ea) 2
           \<and> time (route_details r ! i) = py_round ((e_weight ea / 40) * 60 + 1) 1"
proof -
  from find_shortest_path_SomeD[OF assms(1)] obtain td tt where
    rl: "route_loop G (path r) 0 0 [] = Inr (td, tt, route_details r)"
    by blast
  from route_loop_leg[OF rl assms(2)] show ?thesis
    by (auto simp: travel_time_of_def)
qed

theorem leg_distance_and_time_witness:
  "find_shortest_path example_graph 1 3 = Some example_route
   \<and> Suc 1 < length (path example_route)
   \<and> get_edge_data example_graph 2 3 = Some \<lparr>e_weight = 2.034, e_line = str ''M2''\<rparr>
   \<and> distance (route_details example_route ! 1) = py_round 2.034 2
   \<and> time (route_details example_route ! 1) = py_round ((2.034 / 40) * 60 + 1) 1
   \<and> distance (route_details example_route ! 1) = 2.03
   \<and> time (route_details example_route ! 1) = 4.1
   \<and> py_round ((2.03 / 40) * 60 + 1) 1 = 4"
proof -
  have len: "Suc 1 < length (path example_route)" by (simp add: example_route_def)
  have ed: "get_edge_data example_graph 2 3 = Some \<lparr>e_weight = 2.034, e_line = str ''M2''\<rparr>"
    by (simp add: get_edge_data_def neighbors_def example_graph_def)
  from leg_distance_and_time[OF find_example len]
  have "distance (route_details example_route ! 1) = py_round 2.034 2
        \<and> time (route_details example_route ! 1) = py_round ((2.034 / 40) * 60 + 1) 1"
    using ed by (simp add: example_route_def)
  moreover have "py_round ((2.03 / 40) * 60 + 1) 1 = 4"
    by (simp add: py_round_def round_half_even_def)
  ultimately show ?thesis using find_example len ed by (simp add: example_route_def)
qed

text \<open>
  C3. For every successful result, \<open>total_distance\<close> is the sum of the raw edge weights
  of the path rounded once to 2 places, and \<open>total_time\<close> the sum of the raw leg times
  rounded once to 1 place. On the example the total is 3.04 while the rounded leg
  distances add up to 3.03.
\<close>

theorem totals_rounded_once:
  assumes "find_shortest_path G source_id target_id = Some r"
  shows "edges_ok G (path r)
         \<and> total_distance r = py_round (path_weight G (path r)) 2
         \<and> total_time r = py_round (path_time G (path r)) 1"
proof -
  from find_shortest_path_SomeD[OF assms(1)] obtain td tt where
    rl: "route_loop G (path r) 0 0 [] = Inr (td, tt, route_details r)"
    and t: "total_distance r = py_round td 2" "total_time r = py_round tt 1"
    by blast
  from route_loop_totals[OF rl] t show ?thesis by simp
qed

theorem totals_rounded_once_witness:
  "find_shortest_path example_graph 1 3 = Some example_route
   \<and> path_weight example_graph (path example_route) = 3.038
   \<and> total_distance example_route = py_round 3.038 2
   \<and> total_distance example_route = 3.04
   \<and> sum_list (map distance (route_details example_route)) = 3.03
   \<and> path_time example_graph (path example_route) = 6.557
   \<and> total_time example_route = py_round 6.557 1
   \<and> total_time example_route = 6.6"
proof -
  have pw: "path_weight example_graph (path example_route) = 3.038"
    by (simp add: example_route_def edge_weight_def get_edge_data_def neighbors_def example_graph_def)
  have pt: "path_time example_graph (path example_route) = 6.557"
    by (simp add: example_route_def edge_weight_def get_edge_data_def neighbors_def
        example_graph_def travel_time_of_def)
  from totals_rounded_once[OF find_example] pw pt
  have "total_distance example_route = py_round 3.038 2
        \<and> total_time example_route = py_round 6.557 1" by simp
  then show ?thesis using find_example pw pt by (simp add: example_route_def)
qed

section \<open>Properties of graph construction: coordinates\<close>

lemmas float_defs =
  float_of_str_def str_def strip_def is_space_def split_sign_def ascii_lower_def is_digit_def
  parse_mantissa_def parse_exponent_def is_exp_mark_def digits_value_def scale10_def
  to_float_def Let_def

lemma float_examples:
  "float_of_str (str ''41.06'') = Inr (Finite 41.06)"
  "float_of_str (str ''28.99'') = Inr (Finite 28.99)"
  "float_of_str (str ''95.0'') = Inr (Finite 95)"
  "float_of_str (str ''200'') = Inr (Finite 200)"
  "float_of_str (str ''41.0'') = Inr (Finite 41)"
  "float_of_str (str ''29.0'') = Inr (Finite 29)"
  "float_of_str (str ''29.1'') = Inr (Finite 29.1)"
  "float_of_str [] = Inl ValueError"
  by (simp_all add: float_defs)


lemma build_out_of_range: "build_graph out_of_range_catalog = Inr out_of_range_graph"
  by (simp add: build_graph_def out_of_range_catalog_def out_of_range_graph_def float_examples
      add_node_def has_node_def empty_graph_def)

text \<open>
  C9, as stated, fails: a catalog whose only station has latitude 95 and longitude 200,
  both outside the valid degree ranges, is built into a graph without any error.
\<close>

theorem out_of_range_coordinates_accepted:
  "py_float (CoordStr (str ''95.0'')) = Inr (Finite 95) \<and> \<not> (95 :: real) \<le> 90
   \<and> py_float (CoordStr (str ''200'')) = Inr (Finite 200) \<and> \<not> (200 :: real) \<le> 180
   \<and> build_graph out_of_range_catalog = Inr out_of_range_graph"
  using float_examples build_out_of_range by simp

lemma float_of_str_error: "float_of_str s = Inl e \<Longrightarrow> e = ValueError"
  by (auto simp: float_of_str_def Let_def split: if_splits prod.splits option.splits)

lemma py_float_error: "py_float c = Inl e \<Longrightarrow> e = ValueError"
  by (cases c) (auto dest: float_of_str_error)

lemma add_line_nodes_Inr:
  "add_line_nodes lname sl G = Inr G' \<Longrightarrow> st \<in> set sl \<Longrightarrow>
     (\<exists>lat. py_float (st_latitude st) = Inr lat) \<and> (\<exists>lng. py_float (st_longitude st) = Inr lng)"
  by (induction sl arbitrary: G) (auto split: sum.splits)

lemma add_line_nodes_Inl:
  "add_line_nodes lname sl G = Inl e \<Longrightarrow>
     \<exists>st \<in> set sl. py_float (st_latitude st) = Inl e \<or> py_float (st_longitude st) = Inl e"
  by (induction sl arbitrary: G) (auto split: sum.splits)

lemma add_all_nodes_Inr:
  "add_all_nodes cat G = Inr G' \<Longrightarrow> (lname, sl) \<in> set cat \<Longrightarrow> st \<in> set sl \<Longrightarrow>
     (\<exists>lat. py_float (st_latitude st) = Inr lat) \<and> (\<exists>lng. py_float (st_longitude st) = Inr lng)"
proof (induction cat arbitrary: G)
  case Nil
  then show ?case by simp
next
  case (Cons a cat)
  obtain l1 s1 where a: "a = (l1, s1)" by (cases a)
  from Cons.prems(1) a obtain G1 where g1: "add_line_nodes l1 s1 G = Inr G1"
    and r: "add_all_nodes cat G1 = Inr G'" by (auto split: sum.splits)
  from Cons.prems(2) a consider "lname = l1 \<and> sl = s1" | "(lname, sl) \<in> set cat" by auto
  then show ?case
  proof cases
    case 1
    then show ?thesis using add_line_nodes_Inr[OF g1] Cons.prems(3) by simp
  next
    case 2
    from Cons.IH[OF r this Cons.prems(3)] show ?thesis .
  qed
qed

lemma catalog_coords_Cons:
  "set (catalog_coords ((l1, s1) # cat)) =
     (\<Union>st \<in> set s1. {st_latitude st, st_longitude st}) \<union> set (catalog_coords cat)"
  by (simp add: catalog_coords_def)

lemma add_all_nodes_Inl:
  "add_all_nodes cat G = Inl e \<Longrightarrow> \<exists>c \<in> set (catalog_coords cat). py_float c = Inl e"
proof (induction cat arbitrary: G)
  case Nil
  then show ?case by simp
next
  case (Cons a cat)
  obtain l1 s1 where a: "a = (l1, s1)" by (cases a)
  show ?case
  proof (cases "add_line_nodes l1 s1 G")
    case (Inl e')
    then have "e' = e" using Cons.prems a by simp
    with add_line_nodes_Inl[OF Inl] obtain st where
      "st \<in> set s1" "py_float (st_latitude st) = Inl e \<or> py_float (st_longitude st) = Inl e"
      by blast
    then show ?thesis unfolding a catalog_coords_Cons by blast
  next
    case (Inr G1)
    then have "add_all_nodes cat G1 = Inl e" using Cons.prems a by simp
    from Cons.IH[OF this] show ?thesis unfolding a catalog_coords_Cons by blast
  qed
qed

lemma catalog_coords_mem:
  "c \<in> set (catalog_coords cat) \<longleftrightarrow>
     (\<exists>(lname, sl) \<in> set cat. \<exists>st \<in> set sl. c = st_latitude st \<or> c = st_longitude st)"
  by (auto simp: catalog_coords_def)

text \<open>
  C9, amended. If some latitude or longitude of the catalog is a string that \<open>float\<close>
  rejects, for instance the empty string or \<open>41\<degree>\<close>, \<open>build_graph\<close> raises \<open>ValueError\<close>
  in its first loop and produces no graph, whatever the other coordinates are; the degree
  range of a coordinate is not checked.
\<close>

theorem build_graph_rejects_non_numeric:
  assumes "c \<in> set (catalog_coords cat)" and "py_float c = Inl ValueError"
  shows "build_graph cat = Inl ValueError"
proof (cases "add_all_nodes cat empty_graph")
  case (Inl e)
  from add_all_nodes_Inl[OF Inl] obtain c' where
    c': "c' \<in> set (catalog_coords cat)" "py_float c' = Inl e" by blast
  from py_float_error[OF c'(2)] have "e = ValueError" .
  then show ?thesis using Inl by (simp add: build_graph_def)
next
  case (Inr G)
  from assms(1) obtain lname sl st where m: "(lname, sl) \<in> set cat" "st \<in> set sl"
    "c = st_latitude st \<or> c = st_longitude st"
    unfolding catalog_coords_mem by blast
  from add_all_nodes_Inr[OF Inr m(1,2)] m(3) assms(2) have False by auto
  then show ?thesis ..
qed

theorem build_graph_rejects_non_numeric_witness:
  "CoordStr [] \<in> set (catalog_coords missing_coordinate_catalog)
   \<and> py_float (CoordStr []) = Inl ValueError
   \<and> build_graph missing_coordinate_catalog = Inl ValueError"
proof -
  have m: "CoordStr [] \<in> set (catalog_coords missing_coordinate_catalog)"
    by (simp add: catalog_coords_def missing_coordinate_catalog_def)
  have e: "py_float (CoordStr []) = Inl ValueError" by (simp add: float_examples)
  from build_graph_rejects_non_numeric[OF m e] m e show ?thesis by simp
qed

section \<open>Properties of \<open>search_stations\<close>\<close>













section \<open>Properties of graph construction: the invariant of a built graph\<close>

lemma haversine_distance_km:
  "haversine_distance lat1 lon1 lat2 lon2 = Inr (haversine_km lat1 lon1 lat2 lon2)"
  by (simp add: haversine_distance_total haversine_km_def)

lemma haversine_km_nonneg: "0 \<le> haversine_km lat1 lon1 lat2 lon2"
proof -
  let ?a = "haversine_a (radians lat1) (radians lon1) (radians lat2) (radians lon2)"
  have "0 \<le> ?a" "?a \<le> 1" using haversine_a_bounds by blast+
  then have "0 \<le> arcsin (sqrt ?a)" by (simp add: arcsin_nonneg)
  then show ?thesis by (simp add: haversine_km_def)
qed

lemma float_small:
  "float_of_str (str ''0'') = Inr (Finite 0)"
  "float_of_str (str ''1'') = Inr (Finite 1)"
  "float_of_str (str ''2'') = Inr (Finite 2)"
  "float_of_str (str ''5'') = Inr (Finite 5)"
  by (simp_all add: float_defs)

lemma build_transfer: "build_graph transfer_catalog = Inr transfer_graph"
  by (simp add: build_graph_def transfer_catalog_def transfer_graph_def transfer_station_def
      float_small add_node_def has_node_def empty_graph_def station_distance_def
      haversine_float_def haversine_distance_km add_edge_def ensure_node_def set_adj_def neighbors_def)

lemma map_of_add_node:
  "map_of (g_node (add_node n a G)) = (map_of (g_node G))(n \<mapsto> Some a)"
  by (simp add: add_node_def update_conv')

lemma has_node_add_node: "has_node (add_node n a G) m \<longleftrightarrow> m = n \<or> has_node G m"
  by (simp add: has_node_def map_of_add_node)

lemma neighbors_add_node:
  "neighbors (add_node n a G) u = (if u = n \<and> \<not> has_node G n then [] else neighbors G u)"
  by (simp add: add_node_def neighbors_def update_conv')

lemma wf_add_node: "wf_graph G \<Longrightarrow> wf_graph (add_node n a G)"
  unfolding wf_graph_def
  by (auto simp: map_of_add_node neighbors_add_node has_node_add_node)

lemma ensure_node_id: "has_node G n \<Longrightarrow> ensure_node n G = G"
  by (simp add: ensure_node_def)

lemma g_node_set_adj: "g_node (set_adj u v ea G) = g_node G"
  by (simp add: set_adj_def)

lemma has_node_set_adj: "has_node (set_adj u v ea G) m = has_node G m"
  by (simp add: has_node_def g_node_set_adj)

lemma neighbors_set_adj:
  "neighbors (set_adj u v ea G) x = (if x = u then AList.update v ea (neighbors G u) else neighbors G x)"
  by (simp add: set_adj_def neighbors_def update_conv')

lemma wf_set_adj:
  assumes "wf_graph G" "has_node G v" "0 \<le> e_weight ea"
  shows "wf_graph (set_adj u v ea G)"
proof -
  have mem: "(w, x) \<in> set (AList.update v ea (neighbors G u)) \<Longrightarrow>
             (w, x) = (v, ea) \<or> (w, x) \<in> set (neighbors G u)" for w x
    using set_update_subset[of v ea "neighbors G u"] by auto
  show ?thesis
    using assms unfolding wf_graph_def
    by (auto simp: g_node_set_adj has_node_set_adj neighbors_set_adj distinct_update dest: mem)
qed

lemma add_edge_nodes:
  assumes "has_node G u" "has_node G v"
  shows "g_node (add_edge u v ea G) = g_node G"
  using assms by (simp add: add_edge_def ensure_node_id g_node_set_adj)

lemma wf_add_edge:
  assumes "wf_graph G" "has_node G u" "has_node G v" "0 \<le> e_weight ea"
  shows "wf_graph (add_edge u v ea G)"
proof -
  have 1: "wf_graph (set_adj u v ea G)" by (rule wf_set_adj[OF assms(1,3,4)])
  have 2: "has_node (set_adj u v ea G) u" using assms(2) by (simp add: has_node_set_adj)
  have "wf_graph (set_adj v u ea (set_adj u v ea G))" by (rule wf_set_adj[OF 1 2 assms(4)])
  then show ?thesis using assms(2,3) by (simp add: add_edge_def ensure_node_id)
qed

lemma wf_empty_graph: "wf_graph empty_graph"
  by (simp add: wf_graph_def empty_graph_def neighbors_def)


lemma add_line_nodes_step:
  assumes "add_line_nodes l (st # rest) G = Inr G'"
  shows "add_line_nodes l rest (add_node (st_id st) (station_attrs l st) G) = Inr G'"
  using assms by (auto simp: station_attrs_def split: sum.splits)

lemma add_line_nodes_lookup:
  "add_line_nodes l sl G = Inr G' \<Longrightarrow>
     map_of (g_node G') x =
       (if filter (\<lambda>st. st_id st = x) sl = [] then map_of (g_node G) x
        else Some (Some (station_attrs l (last (filter (\<lambda>st. st_id st = x) sl)))))"
proof (induction sl arbitrary: G)
  case Nil
  then show ?case by simp
next
  case (Cons st rest)
  let ?G1 = "add_node (st_id st) (station_attrs l st) G"
  from Cons.IH[OF add_line_nodes_step[OF Cons.prems]]
  have IH: "map_of (g_node G') x =
       (if filter (\<lambda>st. st_id st = x) rest = [] then map_of (g_node ?G1) x
        else Some (Some (station_attrs l (last (filter (\<lambda>st. st_id st = x) rest)))))" .
  show ?case
    unfolding IH by (simp add: map_of_add_node)
qed

lemma add_line_nodes_wf:
  "add_line_nodes l sl G = Inr G' \<Longrightarrow> wf_graph G \<Longrightarrow> wf_graph G'"
proof (induction sl arbitrary: G)
  case Nil
  then show ?case by simp
next
  case (Cons st rest)
  from Cons.IH[OF add_line_nodes_step[OF Cons.prems(1)] wf_add_node[OF Cons.prems(2)]]
  show ?case .
qed

lemma catalog_records_Cons:
  "catalog_records ((l, sl) # cat) = map (Pair l) sl @ catalog_records cat"
  by (simp add: catalog_records_def)

lemma filter_Pair: "filter (\<lambda>(line_name, station). st_id station = x) (map (Pair l) sl)
                    = map (Pair l) (filter (\<lambda>st. st_id st = x) sl)"
  by (induction sl) auto

lemma add_all_nodes_lookup:
  "add_all_nodes cat G = Inr G' \<Longrightarrow>
     map_of (g_node G') x =
       (if records_of cat x = [] then map_of (g_node G) x
        else Some (Some (station_attrs (fst (last (records_of cat x)))
                                       (snd (last (records_of cat x))))))"
proof (induction cat arbitrary: G)
  case Nil
  then show ?case by (simp add: records_of_def catalog_records_def)
next
  case (Cons a cat)
  obtain l sl where a: "a = (l, sl)" by (cases a)
  from Cons.prems a obtain G1 where g1: "add_line_nodes l sl G = Inr G1"
    and r: "add_all_nodes cat G1 = Inr G'" by (auto split: sum.splits)
  let ?f = "filter (\<lambda>st. st_id st = x) sl"
  have rec: "records_of (a # cat) x = map (Pair l) ?f @ records_of cat x"
    by (simp add: records_of_def a catalog_records_Cons filter_Pair)
  have lm: "?f \<noteq> [] \<Longrightarrow> last (map (Pair l) ?f) = (l, last ?f)"
    by (simp add: last_map)
  show ?case
    unfolding rec Cons.IH[OF r] add_line_nodes_lookup[OF g1]
    using lm by (simp add: last_append)
qed

lemma add_all_nodes_wf:
  "add_all_nodes cat G = Inr G' \<Longrightarrow> wf_graph G \<Longrightarrow> wf_graph G'"
proof (induction cat arbitrary: G)
  case Nil
  then show ?case by simp
next
  case (Cons a cat)
  obtain l sl where a: "a = (l, sl)" by (cases a)
  from Cons.prems a obtain G1 where g1: "add_line_nodes l sl G = Inr G1"
    and r: "add_all_nodes cat G1 = Inr G'" by (auto split: sum.splits)
  from Cons.IH[OF r add_line_nodes_wf[OF g1 Cons.prems(2)]] show ?case .
qed

lemma haversine_float_nonneg: "haversine_float lat1 lon1 lat2 lon2 = Inr d \<Longrightarrow> 0 \<le> d"
  by (auto simp: haversine_float_def haversine_distance_km haversine_km_nonneg
      split: pyfloat.splits if_splits)

lemma station_distance_nonneg: "station_distance s1 s2 = Inr d \<Longrightarrow> 0 \<le> d"
  by (auto simp: station_distance_def dest: haversine_float_nonneg split: sum.splits)

lemma add_line_edges_inv:
  "add_line_edges l sl G = Inr G' \<Longrightarrow> \<forall>st \<in> set sl. has_node G (st_id st) \<Longrightarrow> wf_graph G \<Longrightarrow>
     wf_graph G' \<and> g_node G' = g_node G"
proof (induction l sl G rule: add_line_edges.induct)
  case (1 l s1 s2 rest G)
  from "1.prems"(1) obtain d where d: "station_distance s1 s2 = Inr d"
    and r: "add_line_edges l (s2 # rest)
              (add_edge (st_id s1) (st_id s2) \<lparr>e_weight = d, e_line = l\<rparr> G) = Inr G'"
    by (auto split: sum.splits)
  let ?G1 = "add_edge (st_id s1) (st_id s2) \<lparr>e_weight = d, e_line = l\<rparr> G"
  have n: "has_node G (st_id s1)" "has_node G (st_id s2)" using "1.prems"(2) by simp_all
  have g: "g_node ?G1 = g_node G" by (rule add_edge_nodes[OF n])
  have w: "wf_graph ?G1"
    using wf_add_edge[OF "1.prems"(3) n] station_distance_nonneg[OF d] by simp
  have h: "\<forall>st \<in> set (s2 # rest). has_node ?G1 (st_id st)"
    using "1.prems"(2) g by (simp add: has_node_def)
  from "1.IH"[OF d r h w] g show ?case by simp
qed simp_all

lemma add_all_edges_inv:
  "add_all_edges cat G = Inr G' \<Longrightarrow>
     \<forall>(l, sl) \<in> set cat. \<forall>st \<in> set sl. has_node G (st_id st) \<Longrightarrow> wf_graph G \<Longrightarrow>
     wf_graph G' \<and> g_node G' = g_node G"
proof (induction cat arbitrary: G)
  case Nil
  then show ?case by simp
next
  case (Cons a cat)
  obtain l sl where a: "a = (l, sl)" by (cases a)
  from Cons.prems(1) a obtain G1 where g1: "add_line_edges l sl G = Inr G1"
    and r: "add_all_edges cat G1 = Inr G'" by (auto split: sum.splits)
  have "\<forall>st \<in> set sl. has_node G (st_id st)" using Cons.prems(2) a by auto
  from add_line_edges_inv[OF g1 this Cons.prems(3)]
  have w1: "wf_graph G1" and n1: "g_node G1 = g_node G" by simp_all
  have "\<forall>(l, sl) \<in> set cat. \<forall>st \<in> set sl. has_node G1 (st_id st)"
    using Cons.prems(2) n1 by (auto simp: has_node_def)
  from Cons.IH[OF r this w1] n1 show ?case by simp
qed

lemma records_of_nonempty:
  assumes "(l, sl) \<in> set cat" "st \<in> set sl"
  shows "records_of cat (st_id st) \<noteq> []"
proof -
  have "(l, st) \<in> set (catalog_records cat)"
    using assms by (force simp: catalog_records_def)
  then show ?thesis by (auto simp: records_of_def filter_empty_conv)
qed

lemma build_graph_inv:
  assumes "build_graph cat = Inr G"
  shows "wf_graph G"
    and "map_of (g_node G) x =
           (if records_of cat x = [] then None
            else Some (Some (station_attrs (fst (last (records_of cat x)))
                                           (snd (last (records_of cat x))))))"
proof -
  from assms obtain G0 where g0: "add_all_nodes cat empty_graph = Inr G0"
    and e: "add_all_edges cat G0 = Inr G"
    by (auto simp: build_graph_def split: sum.splits)
  have w0: "wf_graph G0" by (rule add_all_nodes_wf[OF g0 wf_empty_graph])
  have look: "map_of (g_node G0) y =
           (if records_of cat y = [] then None
            else Some (Some (station_attrs (fst (last (records_of cat y)))
                                           (snd (last (records_of cat y))))))" for y
    using add_all_nodes_lookup[OF g0, of y] by (simp add: empty_graph_def)
  have "\<forall>(l, sl) \<in> set cat. \<forall>st \<in> set sl. has_node G0 (st_id st)"
    using records_of_nonempty look by (auto simp: has_node_def)
  from add_all_edges_inv[OF e this w0] have "wf_graph G" "g_node G = g_node G0" by simp_all
  then show "wf_graph G"
    and "map_of (g_node G) x =
           (if records_of cat x = [] then None
            else Some (Some (station_attrs (fst (last (records_of cat x)))
                                           (snd (last (records_of cat x))))))"
    using look[of x] by simp_all
qed

lemma build_graph_has_node:
  assumes "build_graph cat = Inr G"
  shows "has_node G x \<longleftrightarrow> records_of cat x \<noteq> []"
  using build_graph_inv(2)[OF assms, of x] by (simp add: has_node_def)

lemma records_of_parsed:
  assumes "build_graph cat = Inr G" "records_of cat x \<noteq> []"
  shows "\<exists>lat lng. py_float (st_latitude (snd (last (records_of cat x)))) = Inr lat
           \<and> py_float (st_longitude (snd (last (records_of cat x)))) = Inr lng"
proof -
  from assms(1) obtain G0 where g0: "add_all_nodes cat empty_graph = Inr G0"
    by (auto simp: build_graph_def split: sum.splits)
  have "last (records_of cat x) \<in> set (catalog_records cat)"
    using last_in_set[OF assms(2)] by (auto simp: records_of_def)
  then obtain l sl where "(l, sl) \<in> set cat" "snd (last (records_of cat x)) \<in> set sl"
    by (auto simp: catalog_records_def)
  from add_all_nodes_Inr[OF g0 this] show ?thesis by blast
qed

text \<open>
  C5. For every station id of the catalog (in particular one shared by several line
  groups), the node of the built graph has the name, position, order and line tag of the
  last record with that id in processing order, and \<open>get_station_by_id\<close> returns exactly
  these attributes.
\<close>

theorem last_record_wins:
  assumes "build_graph cat = Inr G" and "records_of cat x \<noteq> []"
    and "last (records_of cat x) = (line_name, station)"
  shows "\<exists>lat lng. py_float (st_latitude station) = Inr lat
           \<and> py_float (st_longitude station) = Inr lng
           \<and> map_of (g_node G) x =
               Some (Some \<lparr>n_pos = (lng, lat), n_name = st_name station,
                            n_line = line_name, n_order = st_order station\<rparr>)
           \<and> get_station_by_id G x =
               Some \<lparr>si_id = x, si_name = st_name station, si_latitude = lat,
                     si_longitude = lng, si_line = line_name\<rparr>"
proof -
  from records_of_parsed[OF assms(1,2)] assms(3) obtain lat lng where
    p: "py_float (st_latitude station) = Inr lat" "py_float (st_longitude station) = Inr lng"
    by auto
  have n: "map_of (g_node G) x =
             Some (Some \<lparr>n_pos = (lng, lat), n_name = st_name station,
                          n_line = line_name, n_order = st_order station\<rparr>)"
    using build_graph_inv(2)[OF assms(1), of x] assms(2,3) p by (simp add: station_attrs_def)
  then have "get_station_by_id G x =
               Some \<lparr>si_id = x, si_name = st_name station, si_latitude = lat,
                     si_longitude = lng, si_line = line_name\<rparr>"
    by (simp add: get_station_by_id_def station_info_of_def node_data_def)
  with p n show ?thesis by blast
qed

theorem last_record_wins_witness:
  "build_graph transfer_catalog = Inr transfer_graph
   \<and> records_of transfer_catalog 2 =
       [(str ''A'', transfer_station ''A'' ''BETA'' ''0'' ''1'' 2 2),
        (str ''B'', transfer_station ''B'' ''BETA (B)'' ''0'' ''1'' 2 1)]
   \<and> map_of (g_node transfer_graph) 2 =
       Some (Some \<lparr>n_pos = (Finite 1, Finite 0), n_name = str ''BETA (B)'', n_line = str ''B'', n_order = 1\<rparr>)
   \<and> get_station_by_id transfer_graph 2 =
       Some \<lparr>si_id = 2, si_name = str ''BETA (B)'', si_latitude = Finite 0,
             si_longitude = Finite 1,
             si_line = str ''B''\<rparr>"
proof -
  have r: "records_of transfer_catalog 2 =
       [(str ''A'', transfer_station ''A'' ''BETA'' ''0'' ''1'' 2 2),
        (str ''B'', transfer_station ''B'' ''BETA (B)'' ''0'' ''1'' 2 1)]"
    by (simp add: records_of_def catalog_records_def transfer_catalog_def transfer_station_def)
  then have ne: "records_of transfer_catalog 2 \<noteq> []"
    and l: "last (records_of transfer_catalog 2) = (str ''B'', transfer_station ''B'' ''BETA (B)'' ''0'' ''1'' 2 1)"
    by simp_all
  from last_record_wins[OF build_transfer ne l] build_transfer r
  show ?thesis by (auto simp: transfer_station_def float_small)
qed

text \<open>
  C6. For every id \<open>x\<close> present in the built graph, \<open>find_shortest_path x x\<close> succeeds with
  the single-station path, no legs, total distance 0, total time 0 and \<open>num_stations = 1\<close>.
\<close>

theorem same_station_route:
  assumes "build_graph cat = Inr G" and "has_node G x"
  shows "\<exists>info. get_station_by_id G x = Some info
           \<and> find_shortest_path G x x =
               Some \<lparr>path = [x], stations = [info], route_details = [],
                     total_distance = 0, total_time = 0, num_stations = 1\<rparr>"
proof -
  from assms(2) obtain a where a: "map_of (g_node G) x = Some a"
    by (auto simp: has_node_def)
  from build_graph_inv(1)[OF assms(1)] a obtain na where at: "a = Some na"
    by (cases a) (auto simp: wf_graph_def)
  have r: "py_round 0 2 = 0" "py_round 0 1 = 0"
    by (simp_all add: py_round_def round_half_even_def)
  show ?thesis
    using assms(2) a at r
    by (simp add: get_station_by_id_def station_info_of_def node_data_def
        find_shortest_path_def shortest_path_def)
qed

theorem same_station_route_witness:
  "build_graph transfer_catalog = Inr transfer_graph \<and> has_node transfer_graph 4
   \<and> find_shortest_path transfer_graph 4 4 =
       Some \<lparr>path = [4],
             stations = [\<lparr>si_id = 4, si_name = str ''DELTA'', si_latitude = Finite 1,
                          si_longitude = Finite 5, si_line = str ''C''\<rparr>],
             route_details = [], total_distance = 0, total_time = 0, num_stations = 1\<rparr>"
proof -
  have h: "has_node transfer_graph 4" by (simp add: has_node_def transfer_graph_def)
  have g: "get_station_by_id transfer_graph 4 =
             Some \<lparr>si_id = 4, si_name = str ''DELTA'', si_latitude = Finite 1,
                   si_longitude = Finite 5, si_line = str ''C''\<rparr>"
    by (simp add: get_station_by_id_def station_info_of_def node_data_def transfer_graph_def)
  from same_station_route[OF build_transfer h] g build_transfer h show ?thesis by auto
qed

section \<open>Correctness of the shortest-path search on a built graph\<close>

lemma edges_ok_snoc:
  "p \<noteq> [] \<Longrightarrow> edges_ok G (p @ [w]) \<longleftrightarrow> edges_ok G p \<and> get_edge_data G (last p) w \<noteq> None"
  by (induction G p rule: edges_ok.induct) auto

lemma path_weight_snoc:
  "p \<noteq> [] \<Longrightarrow> path_weight G (p @ [w]) = path_weight G p + edge_weight G (last p) w"
  by (induction G p rule: path_weight.induct) auto

lemma neighbors_edge:
  assumes "wf_graph G" "(w, ea) \<in> set (neighbors G u)"
  shows "get_edge_data G u w = Some ea"
  using assms by (simp add: wf_graph_def get_edge_data_def)

lemma edge_neighbors:
  "get_edge_data G u w = Some ea \<Longrightarrow> (w, ea) \<in> set (neighbors G u)"
  by (simp add: get_edge_data_def map_of_SomeD)

lemma edge_weight_nonneg: "wf_graph G \<Longrightarrow> 0 \<le> edge_weight G u w"
  by (auto simp: edge_weight_def wf_graph_def split: option.splits dest!: edge_neighbors)

lemma path_weight_nonneg: "wf_graph G \<Longrightarrow> 0 \<le> path_weight G p"
  by (induction G p rule: path_weight.induct) (simp_all add: edge_weight_nonneg)

lemma is_path_snoc:
  assumes "wf_graph G" "is_path G s v p" "(w, ea) \<in> set (neighbors G v)"
  shows "is_path G s w (p @ [w])" and "path_weight G (p @ [w]) = path_weight G p + e_weight ea"
proof -
  from assms(2) have p: "p \<noteq> []" "last p = v" by (simp_all add: is_path_def)
  have e: "get_edge_data G v w = Some ea" by (rule neighbors_edge[OF assms(1,3)])
  have n: "has_node G w" using assms(1,3) by (auto simp: wf_graph_def)
  show "is_path G s w (p @ [w])"
    using assms(2) p e n by (simp add: is_path_def edges_ok_snoc)
  show "path_weight G (p @ [w]) = path_weight G p + e_weight ea"
    using p e by (simp add: path_weight_snoc edge_weight_def)
qed

lemma pick_min_None:
  "pick_min final seen = None \<Longrightarrow> (y, dy, py) \<in> set seen \<Longrightarrow> y \<in> set final"
  by (induction final seen rule: pick_min.induct)
     (auto split: if_splits option.splits)

lemma pick_min_least:
  "pick_min final seen = Some (v, d, p) \<Longrightarrow> (y, dy, py) \<in> set seen \<Longrightarrow> y \<notin> set final \<Longrightarrow> d \<le> dy"
proof (induction final seen arbitrary: v d p rule: pick_min.induct)
  case (1 final)
  then show ?case by simp
next
  case (2 final v0 d0 p0 rest)
  show ?case
  proof (cases "v0 \<in> set final")
    case True
    then have "pick_min final rest = Some (v, d, p)" "(y, dy, py) \<in> set rest"
      using "2.prems" by auto
    from "2.IH"(1)[OF True this "2.prems"(3)] show ?thesis .
  next
    case False
    show ?thesis
    proof (cases "pick_min final rest")
      case None
      then have "d = d0" using "2.prems"(1) False by simp
      moreover have "(y, dy, py) \<notin> set rest"
        using pick_min_None[OF None] "2.prems"(3) by blast
      ultimately show ?thesis using "2.prems"(2) by simp
    next
      case (Some a)
      obtain v1 d1 p1 where a: "a = (v1, d1, p1)" by (cases a)
      have d: "d \<le> d0" "d \<le> d1" using "2.prems"(1) False Some a by (auto split: if_splits)
      show ?thesis
      proof (cases "(y, dy, py) = (v0, d0, p0)")
        case True
        then show ?thesis using d by simp
      next
        case ne: False
        then have "(y, dy, py) \<in> set rest" using "2.prems"(2) by auto
        from "2.IH"(2)[OF False Some[unfolded a] this "2.prems"(3)] d show ?thesis by simp
      qed
    qed
  qed
qed

lemma improves_refl: "improves F seen seen"
  by (simp add: improves_def)

lemma improves_trans:
  assumes "improves F a b" "improves F b c"
  shows "improves F a c"
  unfolding improves_def
proof (intro conjI allI impI ballI)
  fix x dx px
  assume "map_of a x = Some (dx, px)"
  with assms(1) obtain d1 p1 where 1: "map_of b x = Some (d1, p1)" "d1 \<le> dx"
    unfolding improves_def by blast
  with assms(2) obtain d2 p2 where 2: "map_of c x = Some (d2, p2)" "d2 \<le> d1"
    unfolding improves_def by blast
  with 1 show "\<exists>dx' px'. map_of c x = Some (dx', px') \<and> dx' \<le> dx" by force
next
  fix x
  assume "x \<in> set F"
  with assms show "map_of c x = map_of a x" unfolding improves_def by simp
qed

lemma relax_edge_step:
  assumes wf: "wf_graph G"
    and snd: "frontier_sound G s seen"
    and v: "map_of seen v = Some (d, p)"
    and opt: "settled_optimal G s F seen"
    and e: "(w, ea) \<in> set (neighbors G v)"
  shows "\<exists>seen1. relax_edge F d p w ea seen = Inr seen1
           \<and> frontier_sound G s seen1 \<and> improves F seen seen1
           \<and> (\<exists>dw pw. map_of seen1 w = Some (dw, pw) \<and> dw \<le> d + e_weight ea)"
proof -
  from snd v have pv: "is_path G s v p" "path_weight G p = d"
    by (auto simp: frontier_sound_def)
  note ext = is_path_snoc[OF wf pv(1) e]
  have new: "is_path G s w (p @ [w])" "path_weight G (p @ [w]) = d + e_weight ea"
    using ext pv(2) by simp_all
  let ?upd = "AList.update w (d + e_weight ea, p @ [w]) seen"
  have upd_sound: "frontier_sound G s ?upd"
    using snd new by (auto simp: frontier_sound_def distinct_update update_conv')
  have upd_entry: "map_of ?upd w = Some (d + e_weight ea, p @ [w])"
    by (simp add: update_conv')
  show ?thesis
  proof (cases "w \<in> set F")
    case True
    with opt obtain dw pw where dw: "map_of seen w = Some (dw, pw)"
      and least: "\<forall>q. is_path G s w q \<longrightarrow> dw \<le> path_weight G q"
      unfolding settled_optimal_def by blast
    from least new have le: "dw \<le> d + e_weight ea" by auto
    then have "relax_edge F d p w ea seen = Inr seen"
      using True dw by (simp add: relax_edge_def Let_def)
    then show ?thesis using snd dw le improves_refl by blast
  next
    case False
    show ?thesis
    proof (cases "map_of seen w")
      case None
      then have r: "relax_edge F d p w ea seen = Inr ?upd"
        using False by (simp add: relax_edge_def Let_def)
      have "improves F seen ?upd"
        using None False by (auto simp: improves_def update_conv')
      with r upd_sound upd_entry show ?thesis by auto
    next
      case (Some a)
      obtain dw pw where a: "a = (dw, pw)" by (cases a)
      show ?thesis
      proof (cases "d + e_weight ea < dw")
        case True
        then have r: "relax_edge F d p w ea seen = Inr ?upd"
          using False Some a by (simp add: relax_edge_def Let_def)
        have "improves F seen ?upd"
          using Some a True False by (auto simp: improves_def update_conv')
        with r upd_sound upd_entry show ?thesis by auto
      next
        case nlt: False
        then have r: "relax_edge F d p w ea seen = Inr seen"
          using False Some a by (simp add: relax_edge_def Let_def)
        with snd Some a nlt improves_refl show ?thesis by force
      qed
    qed
  qed
qed

lemma settled_optimal_improves:
  assumes "settled_optimal G s F seen" "improves F seen seen1"
  shows "settled_optimal G s F seen1"
  using assms unfolding settled_optimal_def improves_def by simp

lemma relax_all:
  assumes wf: "wf_graph G"
    and snd: "frontier_sound G s seen"
    and v: "map_of seen v = Some (d, p)" "v \<in> set F"
    and opt: "settled_optimal G s F seen"
    and es: "set es \<subseteq> set (neighbors G v)"
  shows "\<exists>seen'. relax F d p es seen = Inr seen'
           \<and> frontier_sound G s seen' \<and> improves F seen seen'
           \<and> (\<forall>(w, ea) \<in> set es. \<exists>dw pw. map_of seen' w = Some (dw, pw) \<and> dw \<le> d + e_weight ea)"
  using snd v(1) opt es
proof (induction es arbitrary: seen)
  case Nil
  then show ?case using improves_refl by simp
next
  case (Cons e es)
  obtain w ea where e: "e = (w, ea)" by (cases e)
  with Cons.prems(4) have mem: "(w, ea) \<in> set (neighbors G v)"
    and sub: "set es \<subseteq> set (neighbors G v)" by auto
  from relax_edge_step[OF wf Cons.prems(1,2,3) mem] obtain seen1 dw pw where
    r1: "relax_edge F d p w ea seen = Inr seen1"
    and s1: "frontier_sound G s seen1"
    and i1: "improves F seen seen1"
    and w1: "map_of seen1 w = Some (dw, pw)" "dw \<le> d + e_weight ea"
    by blast
  have v1: "map_of seen1 v = Some (d, p)"
    using i1 v(2) Cons.prems(2) by (simp add: improves_def)
  have o1: "settled_optimal G s F seen1"
    by (rule settled_optimal_improves[OF Cons.prems(3) i1])
  from Cons.IH[OF s1 v1 o1 sub] obtain seen' where
    r: "relax F d p es seen1 = Inr seen'"
    and s': "frontier_sound G s seen'"
    and i': "improves F seen1 seen'"
    and all: "\<forall>(w, ea) \<in> set es. \<exists>dw pw. map_of seen' w = Some (dw, pw) \<and> dw \<le> d + e_weight ea"
    by blast
  from i' w1 obtain dw' pw' where "map_of seen' w = Some (dw', pw')" "dw' \<le> dw"
    unfolding improves_def by blast
  then have hd: "\<exists>dw pw. map_of seen' w = Some (dw, pw) \<and> dw \<le> d + e_weight ea"
    using w1(2) by force
  have "relax F d p (e # es) seen = Inr seen'" using r1 r e by simp
  moreover have "improves F seen seen'" by (rule improves_trans[OF i1 i'])
  ultimately show ?case using s' all hd e by auto
qed

lemma escape:
  assumes wf: "wf_graph G" and rel: "settled_relaxed G final seen"
  shows "edges_ok G q \<Longrightarrow> q \<noteq> [] \<Longrightarrow> hd q \<in> set final \<Longrightarrow> map_of seen (hd q) = Some (du, pu) \<Longrightarrow>
         last q \<notin> set final \<Longrightarrow>
         \<exists>y dy py. y \<notin> set final \<and> map_of seen y = Some (dy, py) \<and> dy \<le> du + path_weight G q"
proof (induction q arbitrary: du pu)
  case Nil
  then show ?case by simp
next
  case (Cons u rest)
  show ?case
  proof (cases rest)
    case Nil
    then show ?thesis using Cons.prems by simp
  next
    case (Cons w rest')
    with Cons.prems(1) obtain ea where ea: "get_edge_data G u w = Some ea"
      and ok: "edges_ok G rest" by auto
    from rel Cons.prems(3,4) edge_neighbors[OF ea] obtain dw pw where
      dw: "map_of seen w = Some (dw, pw)" "dw \<le> du + e_weight ea"
      unfolding settled_relaxed_def by force
    have pw: "path_weight G (u # rest) = e_weight ea + path_weight G rest"
      using Cons ea by (simp add: edge_weight_def)
    show ?thesis
    proof (cases "w \<in> set final")
      case False
      have "dw \<le> du + path_weight G (u # rest)"
        using dw(2) pw path_weight_nonneg[OF wf, of rest] by simp
      with False dw(1) show ?thesis by blast
    next
      case True
      have "last rest \<notin> set final" using Cons.prems(5) Cons by simp
      from Cons.IH[OF ok _ _ _ this, of dw pw] True dw(1) Cons
      obtain y dy py where "y \<notin> set final" "map_of seen y = Some (dy, py)"
        "dy \<le> dw + path_weight G rest" by auto
      then show ?thesis using dw(2) pw by force
    qed
  qed
qed

lemma unsettled_bound:
  assumes wf: "wf_graph G" and inv: "settled_inv G s final seen"
    and q: "is_path G s x q" and x: "x \<notin> set final"
  shows "\<exists>y dy py. y \<notin> set final \<and> map_of seen y = Some (dy, py) \<and> dy \<le> path_weight G q"
proof -
  from inv obtain ds ps where ds: "map_of seen s = Some (ds, ps)" "ds \<le> 0"
    and rel: "settled_relaxed G final seen"
    unfolding settled_inv_def by blast
  from q have q': "edges_ok G q" "q \<noteq> []" "hd q = s" "last q = x"
    by (simp_all add: is_path_def)
  show ?thesis
  proof (cases "s \<in> set final")
    case True
    from escape[OF wf rel q'(1,2), of ds ps] True ds(1) q'(3,4) x
    obtain y dy py where "y \<notin> set final" "map_of seen y = Some (dy, py)"
      "dy \<le> ds + path_weight G q" by auto
    then show ?thesis using ds(2) by force
  next
    case False
    have "ds \<le> path_weight G q" using ds(2) path_weight_nonneg[OF wf, of q] by simp
    with False ds(1) show ?thesis by blast
  qed
qed

lemma map_of_mem:
  "distinct (map fst seen) \<Longrightarrow> map_of seen y = Some (dy, py) \<longleftrightarrow> (y, dy, py) \<in> set seen"
  by (simp add: map_of_eq_Some_iff)

lemma pick_optimal:
  assumes wf: "wf_graph G" and inv: "settled_inv G s final seen"
    and pm: "pick_min final seen = Some (v, d, p)"
    and q: "is_path G s v q"
  shows "d \<le> path_weight G q"
proof -
  from inv have dist: "distinct (map fst seen)"
    by (simp add: settled_inv_def frontier_sound_def)
  from pick_min_SomeD[OF pm] have v: "v \<notin> set final" by simp
  from unsettled_bound[OF wf inv q v] obtain y dy py where
    y: "y \<notin> set final" "map_of seen y = Some (dy, py)" "dy \<le> path_weight G q" by blast
  from y(2) have "(y, dy, py) \<in> set seen" by (simp add: map_of_mem[OF dist])
  from pick_min_least[OF pm this y(1)] y(3) show ?thesis by simp
qed

lemma pick_exists:
  assumes wf: "wf_graph G" and inv: "settled_inv G s final seen"
    and q: "is_path G s t q" and t: "t \<notin> set final"
  shows "pick_min final seen \<noteq> None"
proof
  assume n: "pick_min final seen = None"
  from inv have dist: "distinct (map fst seen)"
    by (simp add: settled_inv_def frontier_sound_def)
  from unsettled_bound[OF wf inv q t] obtain y dy py where
    y: "y \<notin> set final" "map_of seen y = Some (dy, py)" by blast
  from y(2) have "(y, dy, py) \<in> set seen" by (simp add: map_of_mem[OF dist])
  from pick_min_None[OF n this] y(1) show False by simp
qed

lemma settle_step:
  assumes wf: "wf_graph G" and inv: "settled_inv G s final seen"
    and pm: "pick_min final seen = Some (v, d, p)"
  shows "\<exists>seen'. relax (v # final) d p (neighbors G v) seen = Inr seen'
           \<and> settled_inv G s (v # final) seen'"
proof -
  from inv have snd: "frontier_sound G s seen"
    and src: "\<exists>ds ps. map_of seen s = Some (ds, ps) \<and> ds \<le> 0"
    and opt: "settled_optimal G s final seen"
    and rel: "settled_relaxed G final seen"
    unfolding settled_inv_def by blast+
  from snd have dist: "distinct (map fst seen)" by (simp add: frontier_sound_def)
  from pick_min_SomeD[OF pm] have v: "map_of seen v = Some (d, p)"
    by (simp add: map_of_mem[OF dist])
  have optv: "settled_optimal G s (v # final) seen"
    using opt v pick_optimal[OF wf inv pm] unfolding settled_optimal_def by auto
  from relax_all[OF wf snd v _ optv subset_refl] obtain seen' where
    r: "relax (v # final) d p (neighbors G v) seen = Inr seen'"
    and s': "frontier_sound G s seen'"
    and i': "improves (v # final) seen seen'"
    and all: "\<forall>(w, ea) \<in> set (neighbors G v).
                 \<exists>dw pw. map_of seen' w = Some (dw, pw) \<and> dw \<le> d + e_weight ea"
    by auto
  have src': "\<exists>ds ps. map_of seen' s = Some (ds, ps) \<and> ds \<le> 0"
  proof -
    from src obtain ds ps where "map_of seen s = Some (ds, ps)" "ds \<le> 0" by blast
    with i' obtain ds' ps' where "map_of seen' s = Some (ds', ps')" "ds' \<le> ds"
      unfolding improves_def by blast
    with \<open>ds \<le> 0\<close> show ?thesis by force
  qed
  have opt': "settled_optimal G s (v # final) seen'"
    by (rule settled_optimal_improves[OF optv i'])
  have same: "\<And>u. u \<in> set (v # final) \<Longrightarrow> map_of seen' u = map_of seen u"
    using i' unfolding improves_def by blast
  have rel': "settled_relaxed G (v # final) seen'"
    unfolding settled_relaxed_def
  proof (intro ballI allI impI)
    fix u du pu w ea
    assume u: "u \<in> set (v # final)" and mu: "map_of seen' u = Some (du, pu)"
      and e: "(w, ea) \<in> set (neighbors G u)"
    from same[OF u] mu have mu0: "map_of seen u = Some (du, pu)" by simp
    show "\<exists>dw pw. map_of seen' w = Some (dw, pw) \<and> dw \<le> du + e_weight ea"
    proof (cases "u = v")
      case True
      with mu0 v have "du = d" by simp
      with all e True show ?thesis by auto
    next
      case False
      with u have "u \<in> set final" by simp
      with rel mu0 e obtain dw pw where "map_of seen w = Some (dw, pw)" "dw \<le> du + e_weight ea"
        unfolding settled_relaxed_def by blast
      moreover with i' obtain dw' pw' where "map_of seen' w = Some (dw', pw')" "dw' \<le> dw"
        unfolding improves_def by blast
      ultimately show ?thesis by force
    qed
  qed
  show ?thesis using r s' src' opt' rel' unfolding settled_inv_def by blast
qed

lemma dijkstra_loop_correct:
  "wf_graph G \<Longrightarrow> settled_inv G s final seen \<Longrightarrow> t \<notin> set final \<Longrightarrow> is_path G s t q0 \<Longrightarrow>
     \<exists>p. dijkstra_loop G t final seen = Inr p \<and> is_path G s t p
         \<and> (\<forall>q. is_path G s t q \<longrightarrow> path_weight G p \<le> path_weight G q)"
proof (induction G t final seen rule: dijkstra_loop.induct)
  case (1 G t final seen)
  note wf = "1.prems"(1) and inv = "1.prems"(2)
  from pick_exists[OF wf inv "1.prems"(4,3)] obtain v d p where
    pm: "pick_min final seen = Some (v, d, p)" by (cases "pick_min final seen") auto
  from inv have snd: "frontier_sound G s seen" by (simp add: settled_inv_def)
  then have dist: "distinct (map fst seen)" by (simp add: frontier_sound_def)
  from pick_min_SomeD[OF pm] have v: "map_of seen v = Some (d, p)"
    by (simp add: map_of_mem[OF dist])
  with snd have pv: "is_path G s v p" "path_weight G p = d" by (auto simp: frontier_sound_def)
  show ?case
  proof (cases "v = t")
    case True
    have "dijkstra_loop G t final seen = Inr p"
      using pm True by (subst dijkstra_loop.simps) simp
    moreover have "\<forall>q. is_path G s t q \<longrightarrow> path_weight G p \<le> path_weight G q"
      using pick_optimal[OF wf inv pm] True pv(2) by simp
    ultimately show ?thesis using pv(1) True by blast
  next
    case False
    from settle_step[OF wf inv pm] obtain seen' where
      r: "relax (v # final) d p (neighbors G v) seen = Inr seen'"
      and inv': "settled_inv G s (v # final) seen'" by blast
    have t': "t \<notin> set (v # final)" using False "1.prems"(3) by simp
    have eq: "dijkstra_loop G t final seen = dijkstra_loop G t (v # final) seen'"
      using pm False r by (subst dijkstra_loop.simps) simp
    from "1.IH"[OF pm refl refl False r wf inv' t' "1.prems"(4)] eq show ?thesis by simp
  qed
qed

lemma relax_edge_sound:
  assumes wf: "wf_graph G"
    and snd: "frontier_sound G s seen"
    and v: "map_of seen v = Some (d, p)" "v \<in> set F"
    and e: "(w, ea) \<in> set (neighbors G v)"
    and r: "relax_edge F d p w ea seen = Inr seen1"
  shows "frontier_sound G s seen1 \<and> map_of seen1 v = Some (d, p)"
proof -
  from snd v have pv: "is_path G s v p" "path_weight G p = d"
    by (auto simp: frontier_sound_def)
  have new: "is_path G s w (p @ [w])" "path_weight G (p @ [w]) = d + e_weight ea"
    using is_path_snoc[OF wf pv(1) e] pv(2) by simp_all
  let ?upd = "AList.update w (d + e_weight ea, p @ [w]) seen"
  have upd_sound: "frontier_sound G s ?upd"
    using snd new by (auto simp: frontier_sound_def distinct_update update_conv')
  from relax_edge_cases[OF r] consider "seen1 = seen" | "seen1 = ?upd" "w \<notin> set F"
    using r by (auto simp: relax_edge_def Let_def split: if_splits option.splits)
  then show ?thesis
  proof cases
    case 1
    then show ?thesis using snd v by simp
  next
    case 2
    then have "w \<noteq> v" using v(2) by auto
    then show ?thesis using 2 upd_sound v(1) by (simp add: update_conv')
  qed
qed

lemma relax_sound:
  assumes wf: "wf_graph G" and vF: "v \<in> set F"
  shows "frontier_sound G s seen \<Longrightarrow> map_of seen v = Some (d, p) \<Longrightarrow>
         set es \<subseteq> set (neighbors G v) \<Longrightarrow> relax F d p es seen = Inr seen' \<Longrightarrow>
         frontier_sound G s seen'"
proof (induction es arbitrary: seen)
  case Nil
  then show ?case by simp
next
  case (Cons e es)
  obtain w ea where e: "e = (w, ea)" by (cases e)
  with Cons.prems(3) have mem: "(w, ea) \<in> set (neighbors G v)"
    and sub: "set es \<subseteq> set (neighbors G v)" by auto
  from Cons.prems(4) e obtain seen1 where r1: "relax_edge F d p w ea seen = Inr seen1"
    and r: "relax F d p es seen1 = Inr seen'" by (auto split: sum.splits)
  from relax_edge_sound[OF wf Cons.prems(1,2) vF mem r1]
  have "frontier_sound G s seen1" "map_of seen1 v = Some (d, p)" by simp_all
  from Cons.IH[OF this sub r] show ?case .
qed

lemma dijkstra_loop_sound:
  "dijkstra_loop G t final seen = Inr p \<Longrightarrow> wf_graph G \<Longrightarrow> frontier_sound G s seen \<Longrightarrow>
     is_path G s t p"
proof (induction G t final seen rule: dijkstra_loop.induct)
  case (1 G t final seen)
  from "1.prems"(1) obtain v d q where pm: "pick_min final seen = Some (v, d, q)"
    by (subst (asm) dijkstra_loop.simps) (auto split: option.splits)
  from "1.prems"(3) have dist: "distinct (map fst seen)" by (simp add: frontier_sound_def)
  from pick_min_SomeD[OF pm] have v: "map_of seen v = Some (d, q)"
    by (simp add: map_of_mem[OF dist])
  show ?case
  proof (cases "v = t")
    case True
    then have "p = q" using "1.prems"(1) pm by (subst (asm) dijkstra_loop.simps) simp
    then show ?thesis using "1.prems"(3) v True by (auto simp: frontier_sound_def)
  next
    case False
    from "1.prems"(1) pm False obtain seen' where
      rl: "relax (v # final) d q (neighbors G v) seen = Inr seen'"
      and rec: "dijkstra_loop G t (v # final) seen' = Inr p"
      by (subst (asm) dijkstra_loop.simps) (auto split: sum.splits)
    have "frontier_sound G s seen'"
      by (rule relax_sound[OF "1.prems"(2) _ "1.prems"(3) v subset_refl rl]) simp
    from "1.IH"[OF pm refl refl False rl rec "1.prems"(2) this] show ?thesis .
  qed
qed

lemma is_path_single: "has_node G s \<Longrightarrow> is_path G s s [s]"
  by (simp add: is_path_def)

lemma initial_sound: "has_node G s \<Longrightarrow> frontier_sound G s [(s, 0, [s])]"
  by (simp add: frontier_sound_def is_path_def)

lemma initial_inv: "has_node G s \<Longrightarrow> settled_inv G s [] [(s, 0, [s])]"
  by (simp add: settled_inv_def initial_sound settled_optimal_def settled_relaxed_def)

lemma shortest_path_sound:
  assumes "wf_graph G" "shortest_path G s t = Inr p"
  shows "is_path G s t p"
proof -
  from assms(2) have n: "has_node G s" "has_node G t"
    by (auto simp: shortest_path_def split: if_splits)
  show ?thesis
  proof (cases "s = t")
    case True
    then have "p = [s]" using assms(2) n by (simp add: shortest_path_def)
    then show ?thesis using True is_path_single[OF n(1)] by simp
  next
    case False
    then have "dijkstra_loop G t [] [(s, 0, [s])] = Inr p"
      using assms(2) n by (simp add: shortest_path_def)
    from dijkstra_loop_sound[OF this assms(1) initial_sound[OF n(1)]] show ?thesis .
  qed
qed

lemma shortest_path_correct:
  assumes wf: "wf_graph G" and n: "has_node G s" "has_node G t" and c: "connected G s t"
  shows "\<exists>p. shortest_path G s t = Inr p \<and> is_path G s t p
           \<and> (\<forall>q. is_path G s t q \<longrightarrow> path_weight G p \<le> path_weight G q)"
proof (cases "s = t")
  case True
  have "shortest_path G s t = Inr [s]" using True n by (simp add: shortest_path_def)
  moreover have "\<forall>q. path_weight G [s] \<le> path_weight G q"
    using path_weight_nonneg[OF wf] by simp
  ultimately show ?thesis using is_path_single[OF n(1)] True by auto
next
  case False
  from c obtain q0 where q0: "is_path G s t q0" by (auto simp: connected_def)
  have "shortest_path G s t = dijkstra_loop G t [] [(s, 0, [s])]"
    using False n by (simp add: shortest_path_def)
  with dijkstra_loop_correct[OF wf initial_inv[OF n(1)] _ q0] show ?thesis by simp
qed

lemma route_step_ok:
  assumes "wf_graph G" "get_edge_data G u v \<noteq> None" "has_node G u" "has_node G v"
  shows "\<exists>r. route_step G u v = Inr r"
proof -
  from assms(2) obtain ea where ea: "get_edge_data G u v = Some ea" by auto
  from assms(1,3) obtain au where au: "map_of (g_node G) u = Some (Some au)"
    by (auto simp: has_node_def wf_graph_def) (metis option.exhaust)
  from assms(1,4) obtain av where av: "map_of (g_node G) v = Some (Some av)"
    by (auto simp: has_node_def wf_graph_def) (metis option.exhaust)
  show ?thesis using ea au av by (simp add: route_step_def node_data_def attr_def Let_def)
qed

lemma route_loop_ok:
  "wf_graph G \<Longrightarrow> edges_ok G p \<Longrightarrow> list_all (has_node G) p \<Longrightarrow>
     \<exists>r. route_loop G p td tt legs = Inr r"
proof (induction G p td tt legs rule: route_loop.induct)
  case (1 G current_id next_id rest td tt legs)
  from route_step_ok[OF "1.prems"(1), of current_id next_id] "1.prems"(2,3)
  obtain d tm leg where st: "route_step G current_id next_id = Inr (d, tm, leg)"
    by (cases "route_step G current_id next_id") auto
  have "edges_ok G (next_id # rest)" "list_all (has_node G) (next_id # rest)"
    using "1.prems"(2,3) by simp_all
  from "1.IH"[OF st refl refl "1.prems"(1) this] st show ?case by simp
qed simp_all

lemma stations_on_route_ok:
  "wf_graph G \<Longrightarrow> list_all (has_node G) p \<Longrightarrow> \<exists>ss. stations_on_route G p = Inr ss"
proof (induction p)
  case Nil
  then show ?case by simp
next
  case (Cons x p)
  from Cons.prems obtain ax where "map_of (g_node G) x = Some (Some ax)"
    by (auto simp: has_node_def wf_graph_def) (metis option.exhaust)
  then have "\<exists>i. station_info_of G x = Inr i"
    by (simp add: station_info_of_def node_data_def)
  with Cons show ?case by auto
qed

lemma find_shortest_path_ok:
  assumes "wf_graph G" "shortest_path G s t = Inr p"
  shows "\<exists>r. find_shortest_path G s t = Some r \<and> path r = p"
proof -
  from shortest_path_sound[OF assms] have "edges_ok G p" "list_all (has_node G) p"
    by (simp_all add: is_path_def)
  with route_loop_ok[OF assms(1), of p 0 0 "[]"] stations_on_route_ok[OF assms(1), of p]
  obtain td tt legs ss where "route_loop G p 0 0 [] = Inr (td, tt, legs)"
    "stations_on_route G p = Inr ss" by (metis prod_cases3)
  then show ?thesis using assms(2) by (simp add: find_shortest_path_def)
qed

lemma transfer_shortest: "shortest_path transfer_graph 1 3 = Inr [1, 2, 3]"
proof -
  have n: "0 \<le> haversine_km 0 0 0 1" "0 \<le> haversine_km 0 1 0 2"
    by (rule haversine_km_nonneg)+
  then show ?thesis
    by (simp add: shortest_path_def has_node_def transfer_graph_def dijkstra_loop.simps
        relax_edge_def neighbors_def)
qed

lemma transfer_connected: "connected transfer_graph 1 3"
proof -
  have "is_path transfer_graph 1 3 [1, 2, 3]"
    by (simp add: is_path_def has_node_def get_edge_data_def neighbors_def transfer_graph_def)
  then show ?thesis unfolding connected_def by blast
qed

text \<open>
  C1. For every pair of station ids that are both present in the built graph and connected,
  \<open>find_shortest_path\<close> returns a result whose path is a path of the graph from
  \<open>source_id\<close> to \<open>target_id\<close> and whose sum of edge weights is least among all such
  paths.
\<close>

theorem shortest_route_minimal:
  assumes "build_graph cat = Inr G" and "has_node G s" and "has_node G t"
    and "connected G s t"
  shows "\<exists>r. find_shortest_path G s t = Some r \<and> is_path G s t (path r)
           \<and> (\<forall>q. is_path G s t q \<longrightarrow> path_weight G (path r) \<le> path_weight G q)"
proof -
  have wf: "wf_graph G" by (rule build_graph_inv(1)[OF assms(1)])
  from shortest_path_correct[OF wf assms(2,3,4)] obtain p where
    p: "shortest_path G s t = Inr p" "is_path G s t p"
    "\<forall>q. is_path G s t q \<longrightarrow> path_weight G p \<le> path_weight G q" by blast
  from find_shortest_path_ok[OF wf p(1)] p(2,3) show ?thesis by auto
qed

theorem shortest_route_minimal_witness:
  "build_graph transfer_catalog = Inr transfer_graph
   \<and> has_node transfer_graph 1 \<and> has_node transfer_graph 3 \<and> connected transfer_graph 1 3
   \<and> (\<exists>r. find_shortest_path transfer_graph 1 3 = Some r \<and> path r = [1, 2, 3]
          \<and> is_path transfer_graph 1 3 (path r)
          \<and> path_weight transfer_graph (path r) \<le> path_weight transfer_graph [1, 2, 1, 2, 3])"
proof -
  have h: "has_node transfer_graph 1" "has_node transfer_graph 3"
    by (simp_all add: has_node_def transfer_graph_def)
  have alt: "is_path transfer_graph 1 3 [1, 2, 1, 2, 3]"
    by (simp add: is_path_def has_node_def get_edge_data_def neighbors_def transfer_graph_def)
  from shortest_route_minimal[OF build_transfer h transfer_connected] obtain r where
    r: "find_shortest_path transfer_graph 1 3 = Some r" "is_path transfer_graph 1 3 (path r)"
    "\<forall>q. is_path transfer_graph 1 3 q \<longrightarrow>
         path_weight transfer_graph (path r) \<le> path_weight transfer_graph q"
    by blast
  from find_shortest_path_SomeD[OF r(1)] transfer_shortest have "path r = [1, 2, 3]" by auto
  with r alt build_transfer h transfer_connected show ?thesis by blast
qed

lemma transfer_component:
  "edges_ok transfer_graph p \<Longrightarrow> p \<noteq> [] \<Longrightarrow> hd p \<in> {1, 2, 3} \<Longrightarrow> last p \<in> {1, 2, 3}"
proof (induction p)
  case Nil
  then show ?case by simp
next
  case (Cons u rest)
  show ?case
  proof (cases rest)
    case Nil
    then show ?thesis using Cons.prems by simp
  next
    case (Cons v rest')
    with Cons.prems have e: "get_edge_data transfer_graph u v \<noteq> None"
      and ok: "edges_ok transfer_graph rest" and u: "u \<in> {1, 2, 3}" by auto
    from e u have "v \<in> {1, 2, 3}"
      by (auto simp: get_edge_data_def neighbors_def transfer_graph_def split: if_splits)
    with Cons.IH[OF ok] Cons show ?thesis by simp
  qed
qed

lemma transfer_disconnected: "\<not> connected transfer_graph 1 4"
proof
  assume "connected transfer_graph 1 4"
  then obtain p where "is_path transfer_graph 1 4 p" by (auto simp: connected_def)
  then have "edges_ok transfer_graph p" "p \<noteq> []" "hd p = 1" "last p = 4"
    by (simp_all add: is_path_def)
  with transfer_component[of p] show False by simp
qed

text \<open>
  C4. On a built graph \<open>find_shortest_path\<close> returns \<open>None\<close>, a plain value, whenever one
  of the two ids is absent or the two ids are not connected, and \<open>get_station_by_id\<close>
  returns \<open>None\<close> for an id that occurs in no line of the catalog.
\<close>

theorem not_found_results:
  assumes "build_graph cat = Inr G"
  shows "(\<not> has_node G s \<or> \<not> has_node G t \<or> \<not> connected G s t
            \<longrightarrow> find_shortest_path G s t = None)
         \<and> (records_of cat x = [] \<longrightarrow> get_station_by_id G x = None)"
proof -
  have wf: "wf_graph G" by (rule build_graph_inv(1)[OF assms(1)])
  have 1: "find_shortest_path G s t = None" if "\<not> connected G s t"
  proof (cases "find_shortest_path G s t")
    case None
    then show ?thesis .
  next
    case (Some r)
    from find_shortest_path_SomeD[OF Some] have "shortest_path G s t = Inr (path r)" by blast
    from shortest_path_sound[OF wf this] that show ?thesis by (auto simp: connected_def)
  qed
  have 2: "find_shortest_path G s t = None" if "\<not> has_node G s \<or> \<not> has_node G t"
    using that by (auto simp: find_shortest_path_def shortest_path_def)
  have 3: "get_station_by_id G x = None" if "records_of cat x = []"
    using build_graph_inv(2)[OF assms(1), of x] that
    by (simp add: get_station_by_id_def station_info_of_def node_data_def)
  from 1 2 3 show ?thesis by blast
qed

theorem not_found_results_witness:
  "build_graph transfer_catalog = Inr transfer_graph
   \<and> \<not> has_node transfer_graph 9 \<and> find_shortest_path transfer_graph 1 9 = None
   \<and> has_node transfer_graph 1 \<and> has_node transfer_graph 4
   \<and> \<not> connected transfer_graph 1 4 \<and> find_shortest_path transfer_graph 1 4 = None
   \<and> records_of transfer_catalog 9 = [] \<and> get_station_by_id transfer_graph 9 = None"
proof -
  have h: "\<not> has_node transfer_graph 9" "has_node transfer_graph 1" "has_node transfer_graph 4"
    by (simp_all add: has_node_def transfer_graph_def)
  have r: "records_of transfer_catalog 9 = []"
    by (simp add: records_of_def catalog_records_def transfer_catalog_def transfer_station_def)
  from not_found_results[OF build_transfer, of 1 9 9] h(1) r
  have a: "find_shortest_path transfer_graph 1 9 = None"
    "get_station_by_id transfer_graph 9 = None" by simp_all
  from not_found_results[OF build_transfer, of 1 4 9] transfer_disconnected
  have b: "find_shortest_path transfer_graph 1 4 = None" by simp
  from a b h r build_transfer transfer_disconnected show ?thesis by simp
qed

end
